theory Spec2Isabelle
  imports Main
begin

section \<open>Strings, characters and the quote tables\<close>

text \<open>
  A Python \<open>str\<close> is a sequence of Unicode code points, several of them (the curly quotes)
  outside one byte: a character is its code point, a \<open>nat\<close>, and a string is a list of
  them. \<open>ascii\<close> reads an ASCII literal as such a string.
\<close>

type_synonym pystr = "nat list"

definition ascii :: "string \<Rightarrow> pystr" where
  "ascii s = map of_char s"

definition STRAIGHT_DOUBLE_QUOTE :: nat where "STRAIGHT_DOUBLE_QUOTE = 34"
definition STRAIGHT_SINGLE_QUOTE :: nat where "STRAIGHT_SINGLE_QUOTE = 39"
definition LEFT_DOUBLE_QUOTE :: nat where "LEFT_DOUBLE_QUOTE = 8220"
definition RIGHT_DOUBLE_QUOTE :: nat where "RIGHT_DOUBLE_QUOTE = 8221"
definition LEFT_SINGLE_QUOTE :: nat where "LEFT_SINGLE_QUOTE = 8216"
definition RIGHT_SINGLE_QUOTE :: nat where "RIGHT_SINGLE_QUOTE = 8217"
definition LEFT_GUILLEMET :: nat where "LEFT_GUILLEMET = 171"
definition RIGHT_GUILLEMET :: nat where "RIGHT_GUILLEMET = 187"

definition OPENING_QUOTES :: "nat set" where
  "OPENING_QUOTES = {STRAIGHT_DOUBLE_QUOTE, LEFT_DOUBLE_QUOTE, STRAIGHT_SINGLE_QUOTE,
                     LEFT_GUILLEMET, LEFT_SINGLE_QUOTE}"

definition CLOSING_QUOTES :: "nat set" where
  "CLOSING_QUOTES = {STRAIGHT_DOUBLE_QUOTE, RIGHT_DOUBLE_QUOTE, STRAIGHT_SINGLE_QUOTE,
                     RIGHT_GUILLEMET, RIGHT_SINGLE_QUOTE}"

definition ALL_QUOTES :: "nat set" where
  "ALL_QUOTES = OPENING_QUOTES \<union> CLOSING_QUOTES"

text \<open>
  The character class of \<open>QUOTE_PATTERN\<close>: the raw string holds the escapes of
  U+201C, U+201D, U+2018, U+2019, U+00AB, U+00BB, U+201E and U+201C unread, and the regular
  expression reads them inside the brackets, next to the two straight quotes.
\<close>

definition QUOTE_CHARS :: "nat set" where
  "QUOTE_CHARS = {34, 39, 8220, 8221, 8216, 8217, 171, 187, 8222, 8220}"

definition QUOTE_PATTERN_search :: "pystr \<Rightarrow> bool" where
  "QUOTE_PATTERN_search txt = (\<exists>c \<in> set txt. c \<in> QUOTE_CHARS)"

text \<open>\<open>token in ALL_QUOTES\<close> for a string: the set holds one-character strings only.\<close>

definition in_ALL_QUOTES :: "pystr \<Rightarrow> bool" where
  "in_ALL_QUOTES token = (case token of [c] \<Rightarrow> c \<in> ALL_QUOTES | _ \<Rightarrow> False)"

section \<open>Python list primitives that can raise\<close>

text \<open>
  A result \<open>None\<close> stands for a raised exception (\<open>IndexError\<close> from an index out of range
  or from \<open>pop\<close> on an empty list, \<open>ValueError\<close> from a strict \<open>zip\<close>).
\<close>

definition py_pop :: "'a list \<Rightarrow> ('a \<times> 'a list) option" where
  "py_pop xs = (if xs = [] then None else Some (last xs, butlast xs))"

definition py_norm_index :: "nat \<Rightarrow> int \<Rightarrow> nat option" where
  "py_norm_index n i =
     (if 0 \<le> i \<and> i < int n then Some (nat i)
      else if i < 0 \<and> - int n \<le> i then Some (nat (int n + i))
      else None)"

definition py_getitem :: "'a list \<Rightarrow> int \<Rightarrow> 'a option" where
  "py_getitem xs i = map_option (\<lambda>k. xs ! k) (py_norm_index (length xs) i)"

definition py_setitem :: "'a list \<Rightarrow> int \<Rightarrow> 'a \<Rightarrow> 'a list option" where
  "py_setitem xs i v = map_option (\<lambda>k. xs[k := v]) (py_norm_index (length xs) i)"

text \<open>\<open>text.find(c)\<close>: the index of the first occurrence, or \<open>-1\<close>.\<close>

definition py_find :: "pystr \<Rightarrow> nat \<Rightarrow> int" where
  "py_find txt c =
     (if c \<in> set txt then int (length (takeWhile (\<lambda>x. x \<noteq> c) txt)) else - 1)"

text \<open>A loop over a list whose body can raise: the first exception ends it.\<close>

fun fold_opt :: "('a \<Rightarrow> 's \<Rightarrow> 's option) \<Rightarrow> 'a list \<Rightarrow> 's \<Rightarrow> 's option" where
  "fold_opt f [] s = Some s"
| "fold_opt f (x # xs) s = (case f x s of None \<Rightarrow> None | Some s' \<Rightarrow> fold_opt f xs s')"

fun map_opt :: "('a \<Rightarrow> 'b option) \<Rightarrow> 'a list \<Rightarrow> 'b list option" where
  "map_opt f [] = Some []"
| "map_opt f (x # xs) =
     (case f x of None \<Rightarrow> None
      | Some y \<Rightarrow> (case map_opt f xs of None \<Rightarrow> None | Some ys \<Rightarrow> Some (y # ys)))"

section \<open>Data model\<close>

text \<open>
  A paragraph is the dictionary the engine reads (\<open>text\<close>, here \<open>ptext\<close>, \<open>tokens\<close>, and
  the optional \<open>doc_id\<close> and \<open>para_id\<close>); a span is the 7-tuple of \<open>_find_quote_spans\<close>,
  its fields named as the docstring names them; the matcher's state is the stack of open
  quotes (top at the end of the list, as \<open>append\<close> and \<open>pop\<close> have it) and the list of
  spans. Indices are Python integers.
\<close>

record Paragraph =
  ptext :: pystr
  tokens :: "pystr list"
  doc_id :: "pystr option"
  para_id :: "pystr option"

record QuoteBaselineConfig =
  speech_label :: pystr
  handle_multi_paragraph :: bool
  handle_nested :: bool

record ModelPrediction =
  pred_doc_id :: pystr
  pred_para_id :: pystr
  pred_tokens :: "pystr list"
  predicted_bio_labels :: "pystr list"
  pred_text :: pystr

record span =
  start_para :: int
  end_para :: int
  start_token :: int
  end_token :: int
  quote_char :: nat
  is_nested :: bool
  nesting_level :: int

record matcher_state =
  quote_stack :: "(int \<times> int \<times> nat) list"
  spans :: "span list"

definition default_config :: QuoteBaselineConfig where
  "default_config =
     \<lparr>speech_label = ascii ''DIRECT'', handle_multi_paragraph = True, handle_nested = True\<rparr>"

section \<open>The apostrophe classifier\<close>

text \<open>
  \<open>str.isalpha\<close> is Python's own: the predicate \<open>alpha\<close> on characters stands for it
  throughout, and a string is alphabetic when it is not empty and all its characters are.
  \<open>ascii_alpha\<close> is its restriction to ASCII, for the concrete runs.
\<close>

definition str_isalpha :: "(nat \<Rightarrow> bool) \<Rightarrow> pystr \<Rightarrow> bool" where
  "str_isalpha alpha s = (s \<noteq> [] \<and> list_all alpha s)"

definition ascii_alpha :: "nat \<Rightarrow> bool" where
  "ascii_alpha c = ((65 \<le> c \<and> c \<le> 90) \<or> (97 \<le> c \<and> c \<le> 122))"

definition SINGLE_QUOTES :: "nat set" where
  "SINGLE_QUOTES = {STRAIGHT_SINGLE_QUOTE, RIGHT_SINGLE_QUOTE, LEFT_SINGLE_QUOTE}"

definition startswith_char :: "pystr \<Rightarrow> nat \<Rightarrow> bool" where
  "startswith_char token ch = (case token of [] \<Rightarrow> False | c # _ \<Rightarrow> c = ch)"

definition endswith_char :: "pystr \<Rightarrow> nat \<Rightarrow> bool" where
  "endswith_char token ch = (token \<noteq> [] \<and> last token = ch)"

text \<open>The last block of \<open>_is_apostrophe\<close>: the characters around \<open>char_idx\<close> in the text.\<close>

definition text_context :: "(nat \<Rightarrow> bool) \<Rightarrow> int \<Rightarrow> pystr \<Rightarrow> bool" where
  "text_context alpha char_idx txt =
     (if 0 < char_idx \<and> char_idx < int (length txt) - 1 then
        (let prev_char = txt ! nat (char_idx - 1);
             next_char = txt ! nat (char_idx + 1)
         in if alpha prev_char \<and> (alpha next_char \<or> next_char = 115) then True
            else if prev_char = 115 \<and> alpha next_char then True
            else False)
      else False)"

definition is_apostrophe ::
  "(nat \<Rightarrow> bool) \<Rightarrow> nat \<Rightarrow> int \<Rightarrow> pystr \<Rightarrow> int \<Rightarrow> pystr list \<Rightarrow> bool" where
  "is_apostrophe alpha ch char_idx txt token_idx toks =
     (if ch \<notin> SINGLE_QUOTES then False
      else if token_idx < 0 \<or> int (length toks) \<le> token_idx then False
      else
        (let token = toks ! nat token_idx in
         if 1 < length token \<and> ch \<in> set token then
           (if startswith_char token ch \<and> 2 < length token then
              (let rest = tl token in
               if str_isalpha alpha rest \<or> str_isalpha alpha (removeAll 45 rest) then False
               else text_context alpha char_idx txt)
            else if endswith_char token ch \<and> 2 < length token then True
            else if ch \<in> set token \<and> 1 < length token then True
            else text_context alpha char_idx txt)
         else text_context alpha char_idx txt))"

section \<open>The quote stack matcher\<close>

text \<open>
  \<open>_process_quote_token\<close>; its parameters \<open>text\<close> and \<open>tokens\<close> are not read by its body
  and are left out. The \<open>pop\<close> is the list's own, which raises on an empty list.
\<close>

definition process_quote_token ::
  "nat \<Rightarrow> int \<Rightarrow> int \<Rightarrow> matcher_state \<Rightarrow> matcher_state option" where
  "process_quote_token qc token_idx para_idx st =
     (let is_opening = qc \<in> OPENING_QUOTES;
          is_closing = qc \<in> CLOSING_QUOTES
      in if is_closing \<and> quote_stack st \<noteq> [] then
           (case py_pop (quote_stack st) of
              None \<Rightarrow> None
            | Some ((open_para, open_token, open_char), stack') \<Rightarrow>
                (let level = int (length stack') in
                 Some \<lparr>quote_stack = stack',
                       spans = spans st @
                         [\<lparr>start_para = open_para, end_para = para_idx,
                           start_token = open_token, end_token = token_idx,
                           quote_char = open_char, is_nested = (0 < level),
                           nesting_level = level\<rparr>]\<rparr>))
         else if is_opening then
           Some \<lparr>quote_stack = quote_stack st @ [(para_idx, token_idx, qc)], spans = spans st\<rparr>
         else Some st)"

definition extract_quotes_from_token :: "pystr \<Rightarrow> nat list" where
  "extract_quotes_from_token token = filter (\<lambda>q. q \<in> ALL_QUOTES) token"

text \<open>The body of the loop over the quote characters of one token.\<close>

definition scan_quote_char ::
  "(nat \<Rightarrow> bool) \<Rightarrow> int \<Rightarrow> pystr \<Rightarrow> pystr list \<Rightarrow> int \<Rightarrow> nat \<Rightarrow> matcher_state
     \<Rightarrow> matcher_state option" where
  "scan_quote_char alpha para_idx txt toks token_idx qc st =
     (if qc \<in> SINGLE_QUOTES then
        (let char_idx = py_find txt qc in
         if char_idx \<noteq> - 1 \<and> is_apostrophe alpha qc char_idx txt token_idx toks then Some st
         else process_quote_token qc token_idx para_idx st)
      else process_quote_token qc token_idx para_idx st)"

text \<open>The body of the loop over the tokens of one paragraph.\<close>

definition scan_token ::
  "(nat \<Rightarrow> bool) \<Rightarrow> int \<Rightarrow> pystr \<Rightarrow> pystr list \<Rightarrow> nat \<times> pystr \<Rightarrow> matcher_state
     \<Rightarrow> matcher_state option" where
  "scan_token alpha para_idx txt toks it st =
     (let token_idx = int (fst it); token = snd it in
      if in_ALL_QUOTES token then process_quote_token (hd token) token_idx para_idx st
      else if 1 < length token then
        (if hd token \<in> ALL_QUOTES \<or> last token \<in> ALL_QUOTES then
           fold_opt (scan_quote_char alpha para_idx txt toks token_idx)
             (extract_quotes_from_token token) st
         else Some st)
      else Some st)"

text \<open>The body of the loop over the paragraphs, with its fast path.\<close>

definition scan_paragraph ::
  "(nat \<Rightarrow> bool) \<Rightarrow> nat \<times> Paragraph \<Rightarrow> matcher_state \<Rightarrow> matcher_state option" where
  "scan_paragraph alpha ip st =
     (let para_idx = int (fst ip); txt = ptext (snd ip); toks = tokens (snd ip) in
      if \<not> QUOTE_PATTERN_search txt then Some st
      else fold_opt (scan_token alpha para_idx txt toks) (enumerate 0 toks) st)"

definition scan_document :: "(nat \<Rightarrow> bool) \<Rightarrow> Paragraph list \<Rightarrow> matcher_state option" where
  "scan_document alpha paragraphs =
     fold_opt (scan_paragraph alpha) (enumerate 0 paragraphs) \<lparr>quote_stack = [], spans = []\<rparr>"

text \<open>The span of a quote still open at the end of the document.\<close>

definition unclosed_span :: "Paragraph list \<Rightarrow> int \<times> int \<times> nat \<Rightarrow> span" where
  "unclosed_span paragraphs e =
     (case e of (open_para, open_token, open_char) \<Rightarrow>
        \<lparr>start_para = open_para, end_para = int (length paragraphs) - 1,
         start_token = open_token, end_token = - 1,
         quote_char = open_char, is_nested = False, nesting_level = 0\<rparr>)"

definition find_quote_spans ::
  "(nat \<Rightarrow> bool) \<Rightarrow> QuoteBaselineConfig \<Rightarrow> Paragraph list \<Rightarrow> span list option" where
  "find_quote_spans alpha cfg paragraphs =
     (case scan_document alpha paragraphs of
        None \<Rightarrow> None
      | Some st \<Rightarrow>
          if handle_multi_paragraph cfg \<and> quote_stack st \<noteq> [] then
            Some (spans st @ map (unclosed_span paragraphs) (quote_stack st))
          else Some (spans st))"

section \<open>The span-to-BIO projector\<close>

definition O_label :: pystr where
  "O_label = ascii ''O''"

definition B_label :: "pystr \<Rightarrow> pystr" where
  "B_label lbl = ascii ''B-'' @ lbl"

definition I_label :: "pystr \<Rightarrow> pystr" where
  "I_label lbl = ascii ''I-'' @ lbl"

text \<open>
  The marking loop \<open>for token_idx in range(start_tok, stop)\<close> of \<open>_spans_to_bio_labels\<close>,
  with its flag \<open>first_content_token\<close>; reading \<open>tokens[token_idx]\<close> and writing
  \<open>bio_labels[token_idx]\<close> are Python's indexing, which raises out of range.
\<close>

function label_tokens ::
  "pystr \<Rightarrow> pystr list \<Rightarrow> int \<Rightarrow> int \<Rightarrow> bool \<Rightarrow> pystr list \<Rightarrow> pystr list option" where
  "label_tokens lbl toks token_idx stop first_content_token bio_labels =
     (if token_idx < stop then
        (case py_getitem toks token_idx of
           None \<Rightarrow> None
         | Some token \<Rightarrow>
             if in_ALL_QUOTES token then
               label_tokens lbl toks (token_idx + 1) stop first_content_token bio_labels
             else
               (case py_setitem bio_labels token_idx
                       (if first_content_token then B_label lbl else I_label lbl) of
                  None \<Rightarrow> None
                | Some bio_labels' \<Rightarrow>
                    label_tokens lbl toks (token_idx + 1) stop False bio_labels'))
      else Some bio_labels)"
  by pat_completeness auto
termination
  by (relation "measure (\<lambda>(lbl, toks, token_idx, stop, first, bio). nat (stop - token_idx))") auto

text \<open>The body of the loop over the spans of one paragraph.\<close>

definition apply_span ::
  "QuoteBaselineConfig \<Rightarrow> int \<Rightarrow> pystr list \<Rightarrow> span \<Rightarrow> pystr list \<Rightarrow> pystr list option" where
  "apply_span cfg para_idx toks sp bio_labels =
     (let start_tok = (if para_idx = start_para sp then start_token sp else 0);
          end_tok = (if para_idx = end_para sp then
                       (if 0 \<le> end_token sp then end_token sp else int (length toks) - 1)
                     else int (length toks) - 1)
      in label_tokens (speech_label cfg) toks start_tok
           (min (end_tok + 1) (int (length bio_labels))) True bio_labels)"

text \<open>
  \<open>spans_by_para\<close> groups the spans by the paragraph they start in, each group in the order
  of the span list; \<open>spans_by_para.get(para_idx, [])\<close> is the group of one paragraph.
\<close>

definition spans_by_para_get :: "span list \<Rightarrow> int \<Rightarrow> span list" where
  "spans_by_para_get quote_spans para_idx = filter (\<lambda>sp. start_para sp = para_idx) quote_spans"

text \<open>The body of the loop over the paragraphs: the labels of one paragraph.\<close>

definition label_paragraph ::
  "QuoteBaselineConfig \<Rightarrow> span list \<Rightarrow> nat \<times> Paragraph \<Rightarrow> pystr list option" where
  "label_paragraph cfg quote_spans ip =
     (let para_idx = int (fst ip); toks = tokens (snd ip) in
      fold_opt (apply_span cfg para_idx toks) (spans_by_para_get quote_spans para_idx)
        (replicate (length toks) O_label))"

definition spans_to_bio_labels ::
  "QuoteBaselineConfig \<Rightarrow> Paragraph list \<Rightarrow> span list \<Rightarrow> pystr list list option" where
  "spans_to_bio_labels cfg paragraphs quote_spans =
     map_opt (label_paragraph cfg quote_spans) (enumerate 0 paragraphs)"

section \<open>The engine\<close>

definition make_prediction :: "Paragraph \<times> pystr list \<Rightarrow> ModelPrediction" where
  "make_prediction pl =
     (case pl of (para, labels) \<Rightarrow>
        \<lparr>pred_doc_id = (case doc_id para of None \<Rightarrow> ascii ''unknown'' | Some d \<Rightarrow> d),
         pred_para_id = (case para_id para of None \<Rightarrow> ascii ''unknown'' | Some d \<Rightarrow> d),
         pred_tokens = tokens para,
         predicted_bio_labels = labels,
         pred_text = ptext para\<rparr>)"

text \<open>\<open>zip(data, predicted_labels, strict=True)\<close> raises when the lengths differ.\<close>

definition predict_paragraphs ::
  "(nat \<Rightarrow> bool) \<Rightarrow> QuoteBaselineConfig \<Rightarrow> Paragraph list \<Rightarrow> ModelPrediction list option" where
  "predict_paragraphs alpha cfg data =
     (case find_quote_spans alpha cfg data of
        None \<Rightarrow> None
      | Some quote_spans \<Rightarrow>
          (case spans_to_bio_labels cfg data quote_spans of
             None \<Rightarrow> None
           | Some predicted_labels \<Rightarrow>
               if length data \<noteq> length predicted_labels then None
               else Some (map make_prediction (zip data predicted_labels))))"

section \<open>The token offsets helper\<close>

text \<open>
  \<open>_build_token_offsets\<close> places the tokens in the text one after the other, each searched
  from the position the previous one left (\<open>text.find(token, text_pos)\<close>, the first index
  from \<open>text_pos\<close> on where the token occurs, or \<open>-1\<close>), with the current position as the
  fallback for a token that is not found. The matcher does not call it.
\<close>

definition py_find_from :: "pystr \<Rightarrow> pystr \<Rightarrow> nat \<Rightarrow> int" where
  "py_find_from txt sub start =
     (case filter (\<lambda>i. i + length sub \<le> length txt \<and> take (length sub) (drop i txt) = sub)
             [start..<Suc (length txt)] of
        [] \<Rightarrow> - 1
      | i # _ \<Rightarrow> int i)"

definition WHITESPACE :: "nat set" where
  "WHITESPACE = {32, 9, 10, 13}"

function skip_separator :: "pystr \<Rightarrow> nat \<Rightarrow> nat \<Rightarrow> nat" where
  "skip_separator txt token_end text_pos =
     (if text_pos < length txt \<and> text_pos = token_end then
        (if text_pos < length txt \<and> txt ! text_pos \<in> WHITESPACE then
           skip_separator txt token_end (text_pos + 1)
         else text_pos)
      else text_pos)"
  by pat_completeness auto
termination
  by (relation "measure (\<lambda>(txt, token_end, text_pos). length txt - text_pos)") auto

fun build_token_offsets_from :: "pystr \<Rightarrow> nat \<Rightarrow> pystr list \<Rightarrow> (nat \<times> nat) list" where
  "build_token_offsets_from txt text_pos [] = []"
| "build_token_offsets_from txt text_pos (token # rest) =
     (let found = py_find_from txt token text_pos;
          token_start = (if found = - 1 then text_pos else nat found);
          token_end = token_start + length token
      in (token_start, token_end) #
           build_token_offsets_from txt (skip_separator txt token_end token_end) rest)"

definition build_token_offsets :: "pystr \<Rightarrow> pystr list \<Rightarrow> (nat \<times> nat) list" where
  "build_token_offsets txt toks = build_token_offsets_from txt 0 toks"

section \<open>The matcher without its fast path\<close>

text \<open>
  The comparison the performance contract speaks of: the pass that runs the token loop on
  every paragraph, whatever its text holds. It is the matcher above with the test of
  \<open>QUOTE_PATTERN\<close> taken out, and nothing else changed.
\<close>

definition scan_paragraph_every_token ::
  "(nat \<Rightarrow> bool) \<Rightarrow> nat \<times> Paragraph \<Rightarrow> matcher_state \<Rightarrow> matcher_state option" where
  "scan_paragraph_every_token alpha ip st =
     (let para_idx = int (fst ip); txt = ptext (snd ip); toks = tokens (snd ip) in
      fold_opt (scan_token alpha para_idx txt toks) (enumerate 0 toks) st)"

definition find_quote_spans_every_token ::
  "(nat \<Rightarrow> bool) \<Rightarrow> QuoteBaselineConfig \<Rightarrow> Paragraph list \<Rightarrow> span list option" where
  "find_quote_spans_every_token alpha cfg paragraphs =
     (case fold_opt (scan_paragraph_every_token alpha) (enumerate 0 paragraphs)
             \<lparr>quote_stack = [], spans = []\<rparr> of
        None \<Rightarrow> None
      | Some st \<Rightarrow>
          if handle_multi_paragraph cfg \<and> quote_stack st \<noteq> [] then
            Some (spans st @ map (unclosed_span paragraphs) (quote_stack st))
          else Some (spans st))"

definition predict_paragraphs_every_token ::
  "(nat \<Rightarrow> bool) \<Rightarrow> QuoteBaselineConfig \<Rightarrow> Paragraph list \<Rightarrow> ModelPrediction list option" where
  "predict_paragraphs_every_token alpha cfg data =
     (case find_quote_spans_every_token alpha cfg data of
        None \<Rightarrow> None
      | Some quote_spans \<Rightarrow>
          (case spans_to_bio_labels cfg data quote_spans of
             None \<Rightarrow> None
           | Some predicted_labels \<Rightarrow>
               if length data \<noteq> length predicted_labels then None
               else Some (map make_prediction (zip data predicted_labels))))"

text \<open>
  The invariant of a paragraph in the data model: its tokens are derived from its text. What
  the matcher needs of it is that every character of a token occurs in the text, as it does
  for the pieces that \<open>text.split()\<close> yields.
\<close>

definition tokens_within_text :: "Paragraph \<Rightarrow> bool" where
  "tokens_within_text p = (\<forall>token \<in> set (tokens p). set token \<subseteq> set (ptext p))"

section \<open>Notions for the properties of the projector\<close>

text \<open>
  The token range that \<open>_spans_to_bio_labels\<close> computes for a span in a paragraph
  (\<open>start_tok\<close>, and the bound \<open>min(end_tok + 1, len(bio_labels))\<close> of the marking loop),
  and the label the marking loop writes on a token that is not a quote: \<open>B-\<close> on the first
  such token from the start of the range, \<open>I-\<close> on the later ones.
\<close>

definition start_tok_of :: "int \<Rightarrow> span \<Rightarrow> int" where
  "start_tok_of para_idx sp = (if para_idx = start_para sp then start_token sp else 0)"

definition stop_of :: "int \<Rightarrow> nat \<Rightarrow> span \<Rightarrow> int" where
  "stop_of para_idx n sp =
     min ((if para_idx = end_para sp then
             (if 0 \<le> end_token sp then end_token sp else int n - 1)
           else int n - 1) + 1) (int n)"

definition written_label :: "pystr \<Rightarrow> pystr list \<Rightarrow> nat \<Rightarrow> bool \<Rightarrow> nat \<Rightarrow> pystr" where
  "written_label lbl toks start first k =
     (if first \<and> (\<forall>m \<in> {start..<k}. in_ALL_QUOTES (toks ! m))
      then B_label lbl else I_label lbl)"

text \<open>
  Positions are pairs (paragraph, token), ordered paragraph first. A span is closed when its
  closing token is not the sentinel.
\<close>

definition pos_le :: "int \<times> int \<Rightarrow> int \<times> int \<Rightarrow> bool" where
  "pos_le a b = (fst a < fst b \<or> (fst a = fst b \<and> snd a \<le> snd b))"

definition pos_less :: "int \<times> int \<Rightarrow> int \<times> int \<Rightarrow> bool" where
  "pos_less a b = (fst a < fst b \<or> (fst a = fst b \<and> snd a < snd b))"

definition close_pos :: "span \<Rightarrow> int \<times> int" where
  "close_pos sp = (end_para sp, end_token sp)"

definition closed_span :: "span \<Rightarrow> bool" where
  "closed_span sp = (0 \<le> end_token sp)"

text \<open>
  Well-formed labels up to the quote tokens: a quote token carries \<open>O\<close>, and an \<open>I-\<close> label
  has, before it in the paragraph, a token that is not a quote and carries \<open>B-\<close> or \<open>I-\<close>,
  with quote tokens only in between.
\<close>

definition bio_ok :: "pystr \<Rightarrow> pystr list \<Rightarrow> pystr list \<Rightarrow> bool" where
  "bio_ok lbl toks labels =
     (length labels = length toks \<and>
      (\<forall>k < length labels.
         (in_ALL_QUOTES (toks ! k) \<longrightarrow> labels ! k = O_label) \<and>
         (labels ! k = I_label lbl \<longrightarrow>
            (\<exists>j < k. \<not> in_ALL_QUOTES (toks ! j)
                    \<and> (labels ! j = B_label lbl \<or> labels ! j = I_label lbl)
                    \<and> (\<forall>m. j < m \<and> m < k \<longrightarrow> in_ALL_QUOTES (toks ! m))))))"

text \<open>The token indices on the stack and in the spans are not negative.\<close>

definition good_state :: "matcher_state \<Rightarrow> bool" where
  "good_state st =
     ((\<forall>e \<in> set (quote_stack st). 0 \<le> fst (snd e))
      \<and> (\<forall>sp \<in> set (spans st). 0 \<le> start_token sp))"

text \<open>
  The spans of the state are closed, they close before the position \<open>b\<close>, and they stand in
  the list in the order of their closing positions.
\<close>

definition ordered_before :: "int \<times> int \<Rightarrow> matcher_state \<Rightarrow> bool" where
  "ordered_before b st =
     ((\<forall>sp \<in> set (spans st). 0 \<le> end_token sp \<and> pos_less (close_pos sp) b)
      \<and> sorted_wrt (\<lambda>x y. pos_le (close_pos x) (close_pos y)) (spans st))"

section \<open>Concrete documents\<close>

definition mk_paragraph :: "pystr \<Rightarrow> pystr list \<Rightarrow> Paragraph" where
  "mk_paragraph txt toks = \<lparr>ptext = txt, tokens = toks, doc_id = None, para_id = None\<rparr>"

definition doc_open_at_end :: "Paragraph list" where
  "doc_open_at_end =
     [mk_paragraph (ascii ''He said '' @ [34])
        [ascii ''He'', ascii ''said'', [34]],
      mk_paragraph (ascii ''Hello world'' @ [34] @ ascii '' today'')
        [ascii ''Hello'', ascii ''world'', [34], ascii ''today'']]"

definition doc_continued :: "Paragraph list" where
  "doc_continued =
     [mk_paragraph (ascii ''He said '' @ [34] @ ascii ''Hello'')
        [ascii ''He'', ascii ''said'', [34], ascii ''Hello''],
      mk_paragraph (ascii ''world'' @ [34] @ ascii '' today'')
        [ascii ''world'', [34], ascii ''today'']]"

definition doc_unclosed :: "Paragraph list" where
  "doc_unclosed =
     [mk_paragraph (ascii ''He said '' @ [34] @ ascii ''Hello'')
        [ascii ''He'', ascii ''said'', [34], ascii ''Hello''],
      mk_paragraph (ascii ''world today'') [ascii ''world'', ascii ''today'']]"

definition doc_repeated_quote :: "Paragraph list" where
  "doc_repeated_quote =
     [mk_paragraph (ascii ''it'' @ [39] @ ascii ''s '' @ [39] @ ascii ''Hello, there'' @ [39])
        [ascii ''it'' @ [39] @ ascii ''s'', [39] @ ascii ''Hello,'', ascii ''there'' @ [39]]]"

definition doc_nested :: "Paragraph list" where
  "doc_nested =
     [mk_paragraph [8220, 97, 32, 8216, 98, 8217, 32, 99, 8221]
        [[8220], ascii ''a'', [8216], ascii ''b'', [8217], ascii ''c'', [8221]]]"


section \<open>Basic facts\<close>

lemmas quote_char_defs =
  STRAIGHT_DOUBLE_QUOTE_def STRAIGHT_SINGLE_QUOTE_def LEFT_DOUBLE_QUOTE_def
  RIGHT_DOUBLE_QUOTE_def LEFT_SINGLE_QUOTE_def RIGHT_SINGLE_QUOTE_def
  LEFT_GUILLEMET_def RIGHT_GUILLEMET_def

lemmas eval_defs =
  mk_paragraph_def ascii_def predict_paragraphs_def find_quote_spans_def scan_document_def
  scan_paragraph_def scan_token_def scan_quote_char_def QUOTE_PATTERN_search_def QUOTE_CHARS_def
  in_ALL_QUOTES_def ALL_QUOTES_def OPENING_QUOTES_def CLOSING_QUOTES_def SINGLE_QUOTES_def
  quote_char_defs process_quote_token_def py_pop_def py_find_def
  extract_quotes_from_token_def is_apostrophe_def text_context_def str_isalpha_def
  startswith_char_def endswith_char_def ascii_alpha_def unclosed_span_def
  enumerate_eq_zip default_config_def spans_to_bio_labels_def label_paragraph_def
  spans_by_para_get_def apply_span_def py_getitem_def py_setitem_def py_norm_index_def
  O_label_def B_label_def I_label_def make_prediction_def upt_rec label_tokens.simps

declare label_tokens.simps [simp del]

declare skip_separator.simps [simp del]

lemma written_label_alt:
  "written_label lbl toks start first k =
     (if first \<and> (\<forall>m. start \<le> m \<and> m < k \<longrightarrow> in_ALL_QUOTES (toks ! m))
      then B_label lbl else I_label lbl)"
  by (auto simp: written_label_def)

section \<open>The matcher never raises\<close>

lemma py_pop_nonempty: "xs \<noteq> [] \<Longrightarrow> py_pop xs = Some (last xs, butlast xs)"
  by (simp add: py_pop_def)

lemma process_quote_token_closing:
  assumes "qc \<in> CLOSING_QUOTES" and "quote_stack st \<noteq> []"
  shows "process_quote_token qc token_idx para_idx st =
     Some \<lparr>quote_stack = butlast (quote_stack st),
           spans = spans st @
             [\<lparr>start_para = fst (last (quote_stack st)), end_para = para_idx,
               start_token = fst (snd (last (quote_stack st))), end_token = token_idx,
               quote_char = snd (snd (last (quote_stack st))),
               is_nested = (butlast (quote_stack st) \<noteq> []),
               nesting_level = int (length (butlast (quote_stack st)))\<rparr>]\<rparr>"
  using assms
  by (simp add: process_quote_token_def py_pop_nonempty Let_def split: prod.splits)

lemma process_quote_token_opening:
  assumes "qc \<in> OPENING_QUOTES" and "qc \<notin> CLOSING_QUOTES \<or> quote_stack st = []"
  shows "process_quote_token qc token_idx para_idx st =
     Some \<lparr>quote_stack = quote_stack st @ [(para_idx, token_idx, qc)], spans = spans st\<rparr>"
  using assms by (auto simp: process_quote_token_def)

lemma process_quote_token_other:
  assumes "qc \<notin> OPENING_QUOTES" and "qc \<notin> CLOSING_QUOTES \<or> quote_stack st = []"
  shows "process_quote_token qc token_idx para_idx st = Some st"
  using assms by (auto simp: process_quote_token_def)

lemma process_quote_token_cases:
  obtains (close) "qc \<in> CLOSING_QUOTES" "quote_stack st \<noteq> []"
  | (push) "qc \<in> OPENING_QUOTES" "qc \<notin> CLOSING_QUOTES \<or> quote_stack st = []"
  | (skip) "qc \<notin> OPENING_QUOTES" "qc \<notin> CLOSING_QUOTES \<or> quote_stack st = []"
  by blast

lemma process_quote_token_total: "\<exists>st'. process_quote_token qc token_idx para_idx st = Some st'"
  by (cases qc st rule: process_quote_token_cases)
     (simp_all add: process_quote_token_closing process_quote_token_opening process_quote_token_other)

lemma fold_opt_total:
  assumes "\<And>x s. x \<in> set xs \<Longrightarrow> \<exists>s'. f x s = Some s'"
  shows "\<exists>s'. fold_opt f xs s = Some s'"
  using assms
proof (induction xs arbitrary: s)
  case Nil
  then show ?case by simp
next
  case (Cons x xs)
  from Cons.prems[of x s] obtain s1 where "f x s = Some s1" by auto
  moreover from Cons.IH[of s1] Cons.prems obtain s2 where "fold_opt f xs s1 = Some s2" by auto
  ultimately show ?case by simp
qed

lemma scan_quote_char_total:
  "\<exists>st'. scan_quote_char alpha para_idx txt toks token_idx qc st = Some st'"
  by (simp add: scan_quote_char_def Let_def process_quote_token_total)

lemma scan_token_total: "\<exists>st'. scan_token alpha para_idx txt toks it st = Some st'"
  by (simp add: scan_token_def Let_def process_quote_token_total fold_opt_total
        scan_quote_char_total)

lemma scan_paragraph_total: "\<exists>st'. scan_paragraph alpha ip st = Some st'"
  by (simp add: scan_paragraph_def Let_def fold_opt_total scan_token_total)

lemma scan_document_total: "\<exists>st. scan_document alpha paragraphs = Some st"
  by (simp add: scan_document_def fold_opt_total scan_paragraph_total)

section \<open>The marking loop\<close>

lemma py_getitem_in_range:
  "0 \<le> i \<Longrightarrow> i < int (length xs) \<Longrightarrow> py_getitem xs i = Some (xs ! nat i)"
  by (simp add: py_getitem_def py_norm_index_def)

lemma py_setitem_in_range:
  "0 \<le> i \<Longrightarrow> i < int (length xs) \<Longrightarrow> py_setitem xs i v = Some (xs[nat i := v])"
  by (simp add: py_setitem_def py_norm_index_def)

lemma label_tokens_result:
  assumes "0 \<le> i" and "stop \<le> int (length toks)" and "length L = length toks"
  shows "\<exists>L'. label_tokens lbl toks i stop first L = Some L' \<and> length L' = length L \<and>
           (\<forall>k < length L. L' ! k =
              (if nat i \<le> k \<and> int k < stop \<and> \<not> in_ALL_QUOTES (toks ! k)
               then written_label lbl toks (nat i) first k
               else L ! k))"
  using assms
proof (induction lbl toks i stop first L rule: label_tokens.induct)
  case (1 lbl toks i stop first L)
  show ?case
  proof (cases "i < stop")
    case False
    then have "label_tokens lbl toks i stop first L = Some L"
      by (subst label_tokens.simps) simp
    moreover have "\<not> (nat i \<le> k \<and> int k < stop)" for k
      using False "1.prems"(1) by linarith
    ultimately show ?thesis by auto
  next
    case True
    with "1.prems" have inr: "0 \<le> i" "i < int (length toks)" "i < int (length L)" by auto
    have get: "py_getitem toks i = Some (toks ! nat i)"
      using inr by (simp add: py_getitem_in_range)
    show ?thesis
    proof (cases "in_ALL_QUOTES (toks ! nat i)")
      case delim: True
      from "1.IH"(1)[OF True get delim] "1.prems"
      obtain L' where L': "label_tokens lbl toks (i + 1) stop first L = Some L'"
        "length L' = length L"
        "\<forall>k < length L. L' ! k =
              (if nat (i + 1) \<le> k \<and> int k < stop \<and> \<not> in_ALL_QUOTES (toks ! k)
               then written_label lbl toks (nat (i + 1)) first k
               else L ! k)"
        by auto
      have run: "label_tokens lbl toks i stop first L = Some L'"
        using True get delim L'(1) by (subst label_tokens.simps) simp
      have "L' ! k = (if nat i \<le> k \<and> int k < stop \<and> \<not> in_ALL_QUOTES (toks ! k)
               then written_label lbl toks (nat i) first k
               else L ! k)" if k: "k < length L" for k
      proof (cases "nat i \<le> k \<and> int k < stop \<and> \<not> in_ALL_QUOTES (toks ! k)")
        case False
        have n: "\<not> (nat (i + 1) \<le> k \<and> int k < stop \<and> \<not> in_ALL_QUOTES (toks ! k))"
        proof
          assume a: "nat (i + 1) \<le> k \<and> int k < stop \<and> \<not> in_ALL_QUOTES (toks ! k)"
          then have "nat i \<le> k" using inr by linarith
          with a False show False by blast
        qed
        from L'(3) k have "L' ! k =
              (if nat (i + 1) \<le> k \<and> int k < stop \<and> \<not> in_ALL_QUOTES (toks ! k)
               then written_label lbl toks (nat (i + 1)) first k
               else L ! k)" by blast
        then have "L' ! k = L ! k" by (simp only: n if_False)
        then show ?thesis by (simp only: False if_False)
      next
        case c: True
        with delim have "k \<noteq> nat i" by auto
        with c inr have k1: "nat (i + 1) \<le> k" by linarith
        have "(\<forall>m. nat i \<le> m \<and> m < k \<longrightarrow> in_ALL_QUOTES (toks ! m))
            = (\<forall>m. nat (i + 1) \<le> m \<and> m < k \<longrightarrow> in_ALL_QUOTES (toks ! m))"
        proof -
          have "nat i \<le> m \<longleftrightarrow> m = nat i \<or> nat (i + 1) \<le> m" for m
            using inr by linarith
          with delim show ?thesis by auto
        qed
        then have "written_label lbl toks (nat i) first k
                 = written_label lbl toks (nat (i + 1)) first k"
          by (simp add: written_label_alt)
        with L'(3) k c k1 show ?thesis by simp
      qed
      with run L'(2) show ?thesis by simp
    next
      case content: False
      let ?v = "if first then B_label lbl else I_label lbl"
      let ?L1 = "L[nat i := ?v]"
      have set: "py_setitem L i ?v = Some ?L1"
        using inr by (simp add: py_setitem_in_range)
      have len1: "length ?L1 = length toks" using "1.prems" by simp
      from "1.IH"(2)[OF True get content set _ _ len1] "1.prems" inr
      obtain L' where L': "label_tokens lbl toks (i + 1) stop False ?L1 = Some L'"
        "length L' = length ?L1"
        "\<forall>k < length ?L1. L' ! k =
              (if nat (i + 1) \<le> k \<and> int k < stop \<and> \<not> in_ALL_QUOTES (toks ! k)
               then written_label lbl toks (nat (i + 1)) False k
               else ?L1 ! k)"
        by auto
      have run: "label_tokens lbl toks i stop first L = Some L'"
        using True get content set L'(1) by (subst label_tokens.simps) simp
      have "L' ! k = (if nat i \<le> k \<and> int k < stop \<and> \<not> in_ALL_QUOTES (toks ! k)
               then written_label lbl toks (nat i) first k
               else L ! k)" if k: "k < length L" for k
      proof -
        consider (here) "k = nat i" | (before) "k < nat i" | (after) "nat (i + 1) \<le> k"
          using inr by linarith
        then show ?thesis
        proof cases
          case here
          then have "\<not> nat (i + 1) \<le> k" using inr by linarith
          with L'(3) k have "L' ! k = ?L1 ! k" by simp
          also have "\<dots> = ?v" using here k by simp
          also have "\<dots> = written_label lbl toks (nat i) first k"
            using here by (auto simp: written_label_alt)
          finally show ?thesis using here content True inr by simp
        next
          case before
          then have "\<not> nat (i + 1) \<le> k" by linarith
          with L'(3) k have "L' ! k = ?L1 ! k" by simp
          with before show ?thesis by simp
        next
          case after
          then have ne: "k \<noteq> nat i" and ge: "nat i \<le> k" and gt: "nat i < k"
            using inr by linarith+
          have wl: "written_label lbl toks (nat i) first k = I_label lbl"
            using content gt by (auto simp: written_label_alt)
          have wl': "written_label lbl toks (nat (i + 1)) False k = I_label lbl"
            by (simp add: written_label_alt)
          from L'(3) k after ne ge wl wl' show ?thesis by simp
        qed
      qed
      with run L'(2) show ?thesis by simp
    qed
  qed
qed

section \<open>The projector keeps the labels well formed\<close>

lemma labels_distinct:
  "B_label lbl \<noteq> I_label lbl" "I_label lbl \<noteq> B_label lbl"
  "O_label \<noteq> B_label lbl" "O_label \<noteq> I_label lbl"
  "B_label lbl \<noteq> O_label" "I_label lbl \<noteq> O_label"
  by (simp_all add: B_label_def I_label_def O_label_def ascii_def)

lemma written_label_cases:
  "written_label lbl toks start first k = B_label lbl
   \<or> written_label lbl toks start first k = I_label lbl"
  by (simp add: written_label_alt)

lemma start_tok_of_nonneg: "0 \<le> start_token sp \<Longrightarrow> 0 \<le> start_tok_of para_idx sp"
  by (simp add: start_tok_of_def)

lemma stop_of_le: "stop_of para_idx n sp \<le> int n"
  by (simp add: stop_of_def)

lemma apply_span_result:
  assumes "0 \<le> start_token sp" and "length L = length toks"
  shows "\<exists>L'. apply_span cfg para_idx toks sp L = Some L' \<and> length L' = length L \<and>
           (\<forall>k < length L. L' ! k =
              (if start_tok_of para_idx sp \<le> int k
                  \<and> int k < stop_of para_idx (length toks) sp
                  \<and> \<not> in_ALL_QUOTES (toks ! k)
               then written_label (speech_label cfg) toks (nat (start_tok_of para_idx sp)) True k
               else L ! k))"
proof -
  have ap: "apply_span cfg para_idx toks sp L =
          label_tokens (speech_label cfg) toks (start_tok_of para_idx sp)
            (stop_of para_idx (length toks) sp) True L"
    using assms(2) by (simp add: apply_span_def start_tok_of_def stop_of_def Let_def)
  have nn: "0 \<le> start_tok_of para_idx sp" using assms(1) by (rule start_tok_of_nonneg)
  have "nat (start_tok_of para_idx sp) \<le> k \<longleftrightarrow> start_tok_of para_idx sp \<le> int k" for k
    using nn by linarith
  with label_tokens_result[OF nn stop_of_le assms(2),
         of "speech_label cfg" para_idx sp True] ap
  show ?thesis by simp
qed

lemma last_before:
  "\<exists>m::nat. s \<le> m \<and> m < k \<and> P m \<Longrightarrow>
   \<exists>j. s \<le> j \<and> j < k \<and> P j \<and> (\<forall>m. j < m \<and> m < k \<longrightarrow> \<not> P m)"
proof (induction k)
  case 0
  then show ?case by simp
next
  case (Suc k)
  show ?case
  proof (cases "s \<le> k \<and> P k")
    case True
    then have "s \<le> k \<and> k < Suc k \<and> P k \<and> (\<forall>m. k < m \<and> m < Suc k \<longrightarrow> \<not> P m)" by auto
    then show ?thesis by blast
  next
    case False
    with Suc.prems have "\<exists>m. s \<le> m \<and> m < k \<and> P m"
      by (metis less_Suc_eq)
    from Suc.IH[OF this] obtain j where j: "s \<le> j" "j < k" "P j"
      "\<forall>m. j < m \<and> m < k \<longrightarrow> \<not> P m" by blast
    have "\<forall>m. j < m \<and> m < Suc k \<longrightarrow> \<not> P m"
    proof (intro allI impI)
      fix m assume m: "j < m \<and> m < Suc k"
      show "\<not> P m"
      proof (cases "m = k")
        case True
        with False j(1) m show ?thesis by auto
      next
        case False
        with m have "m < k" by simp
        with j(4) m show ?thesis by blast
      qed
    qed
    with j show ?thesis by (metis less_Suc_eq)
  qed
qed

lemma apply_span_bio_ok:
  assumes ok: "bio_ok (speech_label cfg) toks L" and nn: "0 \<le> start_token sp"
  shows "\<exists>L'. apply_span cfg para_idx toks sp L = Some L' \<and> bio_ok (speech_label cfg) toks L'"
proof -
  let ?lbl = "speech_label cfg"
  let ?s = "start_tok_of para_idx sp"
  let ?W = "\<lambda>k. ?s \<le> int k \<and> int k < stop_of para_idx (length toks) sp
                 \<and> \<not> in_ALL_QUOTES (toks ! k)"
  from ok have len: "length L = length toks" by (simp add: bio_ok_def)
  from apply_span_result[OF nn len, of cfg para_idx]
  obtain L' where run: "apply_span cfg para_idx toks sp L = Some L'"
    and len': "length L' = length L"
    and at: "\<And>k. k < length L \<Longrightarrow> L' ! k =
         (if ?W k then written_label ?lbl toks (nat ?s) True k else L ! k)"
    by blast
  have s0: "0 \<le> ?s" using nn by (rule start_tok_of_nonneg)
  have nonO: "L' ! j = B_label ?lbl \<or> L' ! j = I_label ?lbl"
    if "j < length L" and "?W j \<or> L ! j = B_label ?lbl \<or> L ! j = I_label ?lbl" for j
    using that at[of j] written_label_cases[of ?lbl toks "nat ?s" True j] by auto
  have "bio_ok ?lbl toks L'"
    unfolding bio_ok_def
  proof (intro conjI allI impI)
    show "length L' = length toks" using len len' by simp
  next
    fix k assume k: "k < length L'" and q: "in_ALL_QUOTES (toks ! k)"
    from k len' have kL: "k < length L" by simp
    from q at[OF kL] have "L' ! k = L ! k" by simp
    with ok kL q show "L' ! k = O_label" by (simp add: bio_ok_def)
  next
    fix k assume k: "k < length L'" and i: "L' ! k = I_label ?lbl"
    from k len' have kL: "k < length L" by simp
    show "\<exists>j<k. \<not> in_ALL_QUOTES (toks ! j)
             \<and> (L' ! j = B_label ?lbl \<or> L' ! j = I_label ?lbl)
             \<and> (\<forall>m. j < m \<and> m < k \<longrightarrow> in_ALL_QUOTES (toks ! m))"
    proof (cases "?W k")
      case True
      with at[OF kL] i have "written_label ?lbl toks (nat ?s) True k = I_label ?lbl" by simp
      then have "\<exists>m. nat ?s \<le> m \<and> m < k \<and> \<not> in_ALL_QUOTES (toks ! m)"
        by (auto simp: written_label_alt labels_distinct split: if_splits)
      from last_before[OF this]
      obtain j where j: "nat ?s \<le> j" "j < k" "\<not> in_ALL_QUOTES (toks ! j)"
        "\<forall>m. j < m \<and> m < k \<longrightarrow> in_ALL_QUOTES (toks ! m)" by blast
      have "?W j" using j(1,2,3) True s0 by auto
      moreover have "j < length L" using j(2) kL by simp
      ultimately have "L' ! j = B_label ?lbl \<or> L' ! j = I_label ?lbl"
        using nonO[of j] by blast
      with j show ?thesis by blast
    next
      case False
      with at[OF kL] i have "L ! k = I_label ?lbl" by simp
      with ok kL obtain j where j: "j < k" "\<not> in_ALL_QUOTES (toks ! j)"
        "L ! j = B_label ?lbl \<or> L ! j = I_label ?lbl"
        "\<forall>m. j < m \<and> m < k \<longrightarrow> in_ALL_QUOTES (toks ! m)"
        unfolding bio_ok_def by blast
      have "j < length L" using j(1) kL by simp
      with j(3) have "L' ! j = B_label ?lbl \<or> L' ! j = I_label ?lbl"
        using nonO[of j] by blast
      with j show ?thesis by blast
    qed
  qed
  with run show ?thesis by blast
qed

lemma fold_opt_invariant:
  assumes "P s" and "\<And>x s. x \<in> set xs \<Longrightarrow> P s \<Longrightarrow> \<exists>s'. f x s = Some s' \<and> P s'"
  shows "\<exists>s'. fold_opt f xs s = Some s' \<and> P s'"
  using assms
proof (induction xs arbitrary: s)
  case Nil
  then show ?case by simp
next
  case (Cons x xs)
  from Cons.prems(2)[of x s] Cons.prems(1) obtain s1 where s1: "f x s = Some s1" "P s1"
    by auto
  from Cons.IH[OF s1(2)] Cons.prems(2) obtain s2 where "fold_opt f xs s1 = Some s2" "P s2"
    by auto
  with s1 show ?case by simp
qed

lemma map_opt_result:
  assumes "\<And>x. x \<in> set xs \<Longrightarrow> \<exists>y. f x = Some y \<and> P x y"
  shows "\<exists>ys. map_opt f xs = Some ys \<and> list_all2 P xs ys"
  using assms
proof (induction xs)
  case Nil
  then show ?case by simp
next
  case (Cons x xs)
  from Cons.prems[of x] obtain y where y: "f x = Some y" "P x y" by auto
  from Cons.IH Cons.prems obtain ys where ys: "map_opt f xs = Some ys" "list_all2 P xs ys"
    by auto
  from y ys show ?case by simp
qed

lemma bio_ok_initial: "bio_ok lbl toks (replicate (length toks) O_label)"
  by (simp add: bio_ok_def labels_distinct)

lemma label_paragraph_bio_ok:
  assumes "\<forall>sp \<in> set quote_spans. 0 \<le> start_token sp"
  shows "\<exists>L. label_paragraph cfg quote_spans ip = Some L
             \<and> bio_ok (speech_label cfg) (tokens (snd ip)) L"
  unfolding label_paragraph_def Let_def
proof (rule fold_opt_invariant)
  show "bio_ok (speech_label cfg) (tokens (snd ip)) (replicate (length (tokens (snd ip))) O_label)"
    by (rule bio_ok_initial)
next
  fix sp L
  assume "sp \<in> set (spans_by_para_get quote_spans (int (fst ip)))"
    and ok: "bio_ok (speech_label cfg) (tokens (snd ip)) L"
  then have "sp \<in> set quote_spans" by (simp add: spans_by_para_get_def)
  with assms have "0 \<le> start_token sp" by blast
  with ok show "\<exists>L'. apply_span cfg (int (fst ip)) (tokens (snd ip)) sp L = Some L'
                   \<and> bio_ok (speech_label cfg) (tokens (snd ip)) L'"
    by (rule apply_span_bio_ok)
qed

lemma spans_to_bio_labels_bio_ok:
  assumes "\<forall>sp \<in> set quote_spans. 0 \<le> start_token sp"
  shows "\<exists>Ls. spans_to_bio_labels cfg paragraphs quote_spans = Some Ls
           \<and> length Ls = length paragraphs
           \<and> (\<forall>i < length paragraphs.
                 bio_ok (speech_label cfg) (tokens (paragraphs ! i)) (Ls ! i))"
proof -
  have "\<exists>Ls. map_opt (label_paragraph cfg quote_spans) (enumerate 0 paragraphs) = Some Ls
          \<and> list_all2 (\<lambda>ip L. bio_ok (speech_label cfg) (tokens (snd ip)) L)
               (enumerate 0 paragraphs) Ls"
    by (rule map_opt_result) (rule label_paragraph_bio_ok[OF assms])
  then obtain Ls where Ls: "spans_to_bio_labels cfg paragraphs quote_spans = Some Ls"
    and all: "list_all2 (\<lambda>ip L. bio_ok (speech_label cfg) (tokens (snd ip)) L)
               (enumerate 0 paragraphs) Ls"
    by (auto simp: spans_to_bio_labels_def)
  from all have len: "length Ls = length paragraphs"
    by (auto dest: list_all2_lengthD)
  have "bio_ok (speech_label cfg) (tokens (paragraphs ! i)) (Ls ! i)"
    if "i < length paragraphs" for i
    using list_all2_nthD[OF all, of i] that by (simp add: nth_enumerate_eq)
  with Ls len show ?thesis by blast
qed

section \<open>The spans of the matcher start at real tokens\<close>

lemma process_quote_token_good:
  assumes "good_state st" and "0 \<le> token_idx"
  shows "\<exists>st'. process_quote_token qc token_idx para_idx st = Some st' \<and> good_state st'"
proof (cases qc st rule: process_quote_token_cases)
  case close
  then have "last (quote_stack st) \<in> set (quote_stack st)" by simp
  with assms(1) have "0 \<le> fst (snd (last (quote_stack st)))" by (simp add: good_state_def)
  moreover have "\<forall>e \<in> set (butlast (quote_stack st)). 0 \<le> fst (snd e)"
    using assms(1) by (auto simp: good_state_def dest: in_set_butlastD)
  ultimately show ?thesis
    using close assms(1) by (simp add: process_quote_token_closing good_state_def)
next
  case push
  with assms show ?thesis by (simp add: process_quote_token_opening good_state_def)
next
  case skip
  with assms show ?thesis by (simp add: process_quote_token_other)
qed

lemma scan_quote_char_good:
  assumes "good_state st" and "0 \<le> token_idx"
  shows "\<exists>st'. scan_quote_char alpha para_idx txt toks token_idx qc st = Some st'
               \<and> good_state st'"
  using assms process_quote_token_good[OF assms, of qc para_idx]
  by (simp add: scan_quote_char_def Let_def)

lemma scan_token_good:
  assumes "good_state st"
  shows "\<exists>st'. scan_token alpha para_idx txt toks it st = Some st' \<and> good_state st'"
proof -
  have nn: "0 \<le> int (fst it)" by simp
  have chars: "\<exists>st'. fold_opt (scan_quote_char alpha para_idx txt toks (int (fst it)))
                 (extract_quotes_from_token (snd it)) st = Some st' \<and> good_state st'"
    using assms
  proof (rule fold_opt_invariant)
    fix qc s assume "good_state s"
    then show "\<exists>s'. scan_quote_char alpha para_idx txt toks (int (fst it)) qc s = Some s'
                  \<and> good_state s'"
      using nn by (rule scan_quote_char_good)
  qed
  from process_quote_token_good[OF assms nn, of "hd (snd it)" para_idx] chars assms
  show ?thesis by (simp add: scan_token_def Let_def)
qed

lemma scan_paragraph_good:
  assumes "good_state st"
  shows "\<exists>st'. scan_paragraph alpha ip st = Some st' \<and> good_state st'"
proof -
  have "\<exists>st'. fold_opt (scan_token alpha (int (fst ip)) (ptext (snd ip)) (tokens (snd ip)))
           (enumerate 0 (tokens (snd ip))) st = Some st' \<and> good_state st'"
    using assms
  proof (rule fold_opt_invariant)
    fix it s assume "good_state s"
    then show "\<exists>s'. scan_token alpha (int (fst ip)) (ptext (snd ip)) (tokens (snd ip)) it s
                   = Some s' \<and> good_state s'"
      by (rule scan_token_good)
  qed
  with assms show ?thesis by (simp add: scan_paragraph_def Let_def)
qed

lemma scan_document_good:
  "\<exists>st. scan_document alpha paragraphs = Some st \<and> good_state st"
  unfolding scan_document_def
proof (rule fold_opt_invariant)
  show "good_state \<lparr>quote_stack = [], spans = []\<rparr>" by (simp add: good_state_def)
next
  fix ip s assume "good_state s"
  then show "\<exists>s'. scan_paragraph alpha ip s = Some s' \<and> good_state s'"
    by (rule scan_paragraph_good)
qed

lemma find_quote_spans_start_nonneg:
  "\<exists>sps. find_quote_spans alpha cfg paragraphs = Some sps
          \<and> (\<forall>sp \<in> set sps. 0 \<le> start_token sp)"
proof -
  from scan_document_good[of alpha paragraphs]
  obtain st where st: "scan_document alpha paragraphs = Some st" "good_state st" by blast
  have "\<forall>sp \<in> set (map (unclosed_span paragraphs) (quote_stack st)). 0 \<le> start_token sp"
    using st(2) by (auto simp: good_state_def unclosed_span_def split: prod.splits)
  with st show ?thesis by (auto simp: find_quote_spans_def good_state_def)
qed

lemma predict_paragraphs_result:
  "\<exists>sps Ls. find_quote_spans alpha cfg data = Some sps
     \<and> spans_to_bio_labels cfg data sps = Some Ls
     \<and> length Ls = length data
     \<and> (\<forall>i < length data. bio_ok (speech_label cfg) (tokens (data ! i)) (Ls ! i))
     \<and> predict_paragraphs alpha cfg data = Some (map make_prediction (zip data Ls))"
proof -
  from find_quote_spans_start_nonneg[of alpha cfg data]
  obtain sps where sps: "find_quote_spans alpha cfg data = Some sps"
    "\<forall>sp \<in> set sps. 0 \<le> start_token sp" by blast
  from spans_to_bio_labels_bio_ok[OF sps(2), of cfg data]
  obtain Ls where Ls: "spans_to_bio_labels cfg data sps = Some Ls" "length Ls = length data"
    "\<forall>i < length data. bio_ok (speech_label cfg) (tokens (data ! i)) (Ls ! i)" by blast
  from sps(1) Ls(1,2)
  have "predict_paragraphs alpha cfg data = Some (map make_prediction (zip data Ls))"
    by (simp add: predict_paragraphs_def)
  with sps(1) Ls show ?thesis by blast
qed

section \<open>The spans of the matcher stand in closing order\<close>

lemma ordered_before_mono:
  assumes "ordered_before b st" and "pos_le b b'"
  shows "ordered_before b' st"
  using assms by (auto simp: ordered_before_def pos_le_def pos_less_def)

lemma process_quote_token_ordered:
  assumes "ordered_before (para_idx, token_idx + 1) st" and "0 \<le> token_idx"
  shows "\<exists>st'. process_quote_token qc token_idx para_idx st = Some st'
               \<and> ordered_before (para_idx, token_idx + 1) st'"
proof (cases qc st rule: process_quote_token_cases)
  case close
  let ?sp = "\<lparr>start_para = fst (last (quote_stack st)), end_para = para_idx,
               start_token = fst (snd (last (quote_stack st))), end_token = token_idx,
               quote_char = snd (snd (last (quote_stack st))),
               is_nested = (butlast (quote_stack st) \<noteq> []),
               nesting_level = int (length (butlast (quote_stack st)))\<rparr>"
  have new: "0 \<le> end_token ?sp \<and> pos_less (close_pos ?sp) (para_idx, token_idx + 1)"
    using assms(2) by (simp add: pos_less_def close_pos_def)
  have old: "\<forall>x \<in> set (spans st). pos_le (close_pos x) (close_pos ?sp)"
    using assms(1) by (auto simp: ordered_before_def pos_le_def pos_less_def close_pos_def)
  have "ordered_before (para_idx, token_idx + 1)
          \<lparr>quote_stack = butlast (quote_stack st), spans = spans st @ [?sp]\<rparr>"
    using assms(1) new old by (simp add: ordered_before_def sorted_wrt_append)
  with close show ?thesis by (simp add: process_quote_token_closing)
next
  case push
  with assms show ?thesis by (simp add: process_quote_token_opening ordered_before_def)
next
  case skip
  with assms show ?thesis by (simp add: process_quote_token_other)
qed

lemma scan_quote_char_ordered:
  assumes "ordered_before (para_idx, token_idx + 1) st" and "0 \<le> token_idx"
  shows "\<exists>st'. scan_quote_char alpha para_idx txt toks token_idx qc st = Some st'
               \<and> ordered_before (para_idx, token_idx + 1) st'"
  using assms process_quote_token_ordered[OF assms, of qc]
  by (simp add: scan_quote_char_def Let_def)

lemma scan_token_ordered:
  assumes "ordered_before (para_idx, int i) st"
  shows "\<exists>st'. scan_token alpha para_idx txt toks (i, token) st = Some st'
               \<and> ordered_before (para_idx, int (Suc i)) st'"
proof -
  have nn: "0 \<le> int i" by simp
  have ob: "ordered_before (para_idx, int i + 1) st"
    using assms by (rule ordered_before_mono) (simp add: pos_le_def)
  have chars: "\<exists>st'. fold_opt (scan_quote_char alpha para_idx txt toks (int i))
                 (extract_quotes_from_token token) st = Some st'
               \<and> ordered_before (para_idx, int i + 1) st'"
    using ob
  proof (rule fold_opt_invariant)
    fix qc s assume "ordered_before (para_idx, int i + 1) s"
    then show "\<exists>s'. scan_quote_char alpha para_idx txt toks (int i) qc s = Some s'
                  \<and> ordered_before (para_idx, int i + 1) s'"
      using nn by (rule scan_quote_char_ordered)
  qed
  have eq: "int (Suc i) = int i + 1" by simp
  from process_quote_token_ordered[OF ob nn, of "hd token"] chars ob
  show ?thesis unfolding eq by (simp add: scan_token_def Let_def)
qed

lemma fold_opt_enumerate_invariant:
  assumes "Q n s"
    and "\<And>i x s. n \<le> i \<Longrightarrow> Q i s \<Longrightarrow> \<exists>s'. f (i, x) s = Some s' \<and> Q (Suc i) s'"
  shows "\<exists>s'. fold_opt f (enumerate n xs) s = Some s' \<and> Q (n + length xs) s'"
  using assms
proof (induction xs arbitrary: n s)
  case Nil
  then show ?case by simp
next
  case (Cons x xs)
  from Cons.prems(2)[of n s x] Cons.prems(1)
  obtain s1 where s1: "f (n, x) s = Some s1" "Q (Suc n) s1" by auto
  have "\<exists>s'. fold_opt f (enumerate (Suc n) xs) s1 = Some s' \<and> Q (Suc n + length xs) s'"
  proof (rule Cons.IH[OF s1(2)])
    fix i y s assume "Suc n \<le> i" "Q i s"
    then show "\<exists>s'. f (i, y) s = Some s' \<and> Q (Suc i) s'"
      using Cons.prems(2)[of i s y] by simp
  qed
  with s1 show ?case by simp
qed

lemma scan_paragraph_ordered:
  assumes "ordered_before (int p, 0) st"
  shows "\<exists>st'. scan_paragraph alpha (p, para) st = Some st'
               \<and> ordered_before (int (Suc p), 0) st'"
proof -
  let ?f = "scan_token alpha (int p) (ptext para) (tokens para)"
  have "\<exists>st'. fold_opt ?f (enumerate 0 (tokens para)) st = Some st'
           \<and> ordered_before (int p, int (0 + length (tokens para))) st'"
  proof (rule fold_opt_enumerate_invariant
           [where Q = "\<lambda>i s. ordered_before (int p, int i) s"])
    show "ordered_before (int p, int 0) st" using assms by simp
  next
    fix i x s assume "ordered_before (int p, int i) s"
    then show "\<exists>s'. ?f (i, x) s = Some s' \<and> ordered_before (int p, int (Suc i)) s'"
      by (rule scan_token_ordered)
  qed
  then obtain st' where st': "fold_opt ?f (enumerate 0 (tokens para)) st = Some st'"
    "ordered_before (int p, int (length (tokens para))) st'" by auto
  have up: "ordered_before (int (Suc p), 0) s" if "ordered_before (int p, t) s" for s t
    using that by (rule ordered_before_mono) (simp add: pos_le_def)
  from st' up[OF st'(2)] up[OF assms] show ?thesis
    by (simp add: scan_paragraph_def Let_def)
qed

lemma scan_document_ordered:
  "\<exists>st. scan_document alpha paragraphs = Some st
        \<and> ordered_before (int (length paragraphs), 0) st"
proof -
  have "\<exists>st. fold_opt (scan_paragraph alpha) (enumerate 0 paragraphs)
                \<lparr>quote_stack = [], spans = []\<rparr> = Some st
        \<and> ordered_before (int (0 + length paragraphs), 0) st"
  proof (rule fold_opt_enumerate_invariant
           [where Q = "\<lambda>i s. ordered_before (int i, 0) s"])
    show "ordered_before (int 0, 0) \<lparr>quote_stack = [], spans = []\<rparr>"
      by (simp add: ordered_before_def)
  next
    fix i x s assume "ordered_before (int i, 0) s"
    then show "\<exists>s'. scan_paragraph alpha (i, x) s = Some s'
                  \<and> ordered_before (int (Suc i), 0) s'"
      by (rule scan_paragraph_ordered)
  qed
  then show ?thesis by (simp add: scan_document_def)
qed

lemma closed_spans_in_closing_order:
  assumes "find_quote_spans alpha cfg paragraphs = Some sps"
    and "i < length sps" and "j < length sps"
    and "closed_span (sps ! i)" and "closed_span (sps ! j)"
    and "pos_less (close_pos (sps ! i)) (close_pos (sps ! j))"
  shows "i < j"
proof -
  from scan_document_ordered[of alpha paragraphs]
  obtain st where st: "scan_document alpha paragraphs = Some st"
    "ordered_before (int (length paragraphs), 0) st" by blast
  let ?un = "map (unclosed_span paragraphs) (quote_stack st)"
  from assms(1) st(1) have sps: "sps = spans st \<or> sps = spans st @ ?un"
    by (auto simp: find_quote_spans_def split: if_splits)
  have un: "\<not> closed_span (?un ! n)" if "n < length ?un" for n
    using that by (simp add: closed_span_def unclosed_span_def split: prod.splits)
  have inside: "n < length (spans st) \<and> sps ! n = spans st ! n"
    if "n < length sps" "closed_span (sps ! n)" for n
  proof (cases "n < length (spans st)")
    case True
    with sps show ?thesis by (auto simp: nth_append)
  next
    case False
    with sps that(1) have "sps = spans st @ ?un" "n - length (spans st) < length ?un"
      by auto
    with False that(2) un[of "n - length (spans st)"] show ?thesis
      by (simp add: nth_append)
  qed
  from inside[OF assms(2,4)] inside[OF assms(3,5)]
  have ij: "i < length (spans st)" "j < length (spans st)"
    "sps ! i = spans st ! i" "sps ! j = spans st ! j" by simp_all
  from st(2) have sorted: "sorted_wrt (\<lambda>x y. pos_le (close_pos x) (close_pos y)) (spans st)"
    by (simp add: ordered_before_def)
  show ?thesis
  proof (rule ccontr)
    assume "\<not> i < j"
    then consider "j = i" | "j < i" by linarith
    then show False
    proof cases
      case 1
      with assms(6) show False by (simp add: pos_less_def)
    next
      case 2
      from sorted_wrt_nth_less[OF sorted 2 ij(1)]
      have "pos_le (close_pos (spans st ! j)) (close_pos (spans st ! i))" .
      with assms(6) ij(3,4) show False by (auto simp: pos_le_def pos_less_def)
    qed
  qed
qed

section \<open>The priority rule of the matcher\<close>

text \<open>
  Claim C2. For a quote character handed to \<open>_process_quote_token\<close>: when the stack is not
  empty and the character is in the closing set, the most recently pushed entry is popped and
  the span (open paragraph, current paragraph, open token, current token, popped character)
  is appended, its nesting level the size of the stack after the pop and \<open>is_nested\<close> true
  exactly when the stack is not empty after the pop. The stack grows only when it was empty or
  the character is in the opening set and not in the closing set, and then by the entry
  (current paragraph, current token, character), with no span appended.
\<close>

theorem process_quote_token_priority:
  "(quote_stack st \<noteq> [] \<and> qc \<in> CLOSING_QUOTES \<longrightarrow>
      process_quote_token qc token_idx para_idx st =
        Some \<lparr>quote_stack = butlast (quote_stack st),
              spans = spans st @
                [\<lparr>start_para = fst (last (quote_stack st)), end_para = para_idx,
                  start_token = fst (snd (last (quote_stack st))), end_token = token_idx,
                  quote_char = snd (snd (last (quote_stack st))),
                  is_nested = (butlast (quote_stack st) \<noteq> []),
                  nesting_level = int (length (butlast (quote_stack st)))\<rparr>]\<rparr>)
   \<and> (\<forall>st'. process_quote_token qc token_idx para_idx st = Some st'
          \<and> length (quote_stack st) < length (quote_stack st') \<longrightarrow>
        (quote_stack st = [] \<or> (qc \<in> OPENING_QUOTES \<and> qc \<notin> CLOSING_QUOTES))
        \<and> quote_stack st' = quote_stack st @ [(para_idx, token_idx, qc)]
        \<and> spans st' = spans st)"
proof -
  have closing: "quote_stack st \<noteq> [] \<and> qc \<in> CLOSING_QUOTES \<longrightarrow>
      process_quote_token qc token_idx para_idx st =
        Some \<lparr>quote_stack = butlast (quote_stack st),
              spans = spans st @
                [\<lparr>start_para = fst (last (quote_stack st)), end_para = para_idx,
                  start_token = fst (snd (last (quote_stack st))), end_token = token_idx,
                  quote_char = snd (snd (last (quote_stack st))),
                  is_nested = (butlast (quote_stack st) \<noteq> []),
                  nesting_level = int (length (butlast (quote_stack st)))\<rparr>]\<rparr>"
    by (simp add: process_quote_token_closing)
  have pushing: "(quote_stack st = [] \<or> (qc \<in> OPENING_QUOTES \<and> qc \<notin> CLOSING_QUOTES))
        \<and> quote_stack st' = quote_stack st @ [(para_idx, token_idx, qc)]
        \<and> spans st' = spans st"
    if a: "process_quote_token qc token_idx para_idx st = Some st'
           \<and> length (quote_stack st) < length (quote_stack st')" for st'
  proof (cases qc st rule: process_quote_token_cases)
    case close
    with a show ?thesis by (auto simp: process_quote_token_closing)
  next
    case push
    with a show ?thesis by (auto simp: process_quote_token_opening)
  next
    case skip
    with a show ?thesis by (auto simp: process_quote_token_other)
  qed
  from closing pushing show ?thesis by blast
qed

theorem process_quote_token_priority_witness:
  "quote_stack \<lparr>quote_stack = [(0, 2, 34)], spans = []\<rparr> \<noteq> [] \<and> 34 \<in> CLOSING_QUOTES
   \<and> process_quote_token 34 5 0 \<lparr>quote_stack = [(0, 2, 34)], spans = []\<rparr> =
       Some \<lparr>quote_stack = [],
             spans = [\<lparr>start_para = 0, end_para = 0, start_token = 2, end_token = 5,
                       quote_char = 34, is_nested = False, nesting_level = 0\<rparr>]\<rparr>
   \<and> process_quote_token 8216 3 1 \<lparr>quote_stack = [(0, 2, 34)], spans = []\<rparr> =
       Some \<lparr>quote_stack = [(0, 2, 34), (1, 3, 8216)], spans = []\<rparr>
   \<and> 8216 \<in> OPENING_QUOTES \<and> 8216 \<notin> CLOSING_QUOTES"
  using process_quote_token_priority
          [of "\<lparr>quote_stack = [(0, 2, 34)], spans = []\<rparr>" 34 5 0]
        process_quote_token_priority
          [of "\<lparr>quote_stack = [(0, 2, 34)], spans = []\<rparr>" 8216 3 1]
  by (simp add: CLOSING_QUOTES_def OPENING_QUOTES_def quote_char_defs process_quote_token_def
        py_pop_def)

text \<open>
  Claim C9. A character of the closing set only, met with an empty stack, changes nothing:
  nothing is pushed, no span is appended and nothing is raised. The \<open>pop\<close> of the matcher
  never runs on an empty stack: no step of the matcher raises, and neither does a whole pass
  over a document, for any configuration.
\<close>

theorem closing_only_on_empty_stack_is_noop:
  "(qc \<in> CLOSING_QUOTES \<and> qc \<notin> OPENING_QUOTES \<and> quote_stack st = [] \<longrightarrow>
      process_quote_token qc token_idx para_idx st = Some st)
   \<and> process_quote_token qc' token_idx' para_idx' st' \<noteq> None
   \<and> find_quote_spans alpha cfg paragraphs \<noteq> None"
proof (intro conjI impI)
  assume "qc \<in> CLOSING_QUOTES \<and> qc \<notin> OPENING_QUOTES \<and> quote_stack st = []"
  then show "process_quote_token qc token_idx para_idx st = Some st"
    by (simp add: process_quote_token_other)
next
  from process_quote_token_total[of qc' token_idx' para_idx' st']
  show "process_quote_token qc' token_idx' para_idx' st' \<noteq> None" by auto
next
  from scan_document_total[of alpha paragraphs]
  show "find_quote_spans alpha cfg paragraphs \<noteq> None"
    by (auto simp: find_quote_spans_def)
qed

theorem closing_only_on_empty_stack_is_noop_witness:
  "RIGHT_DOUBLE_QUOTE \<in> CLOSING_QUOTES \<and> RIGHT_DOUBLE_QUOTE \<notin> OPENING_QUOTES
   \<and> quote_stack \<lparr>quote_stack = [], spans = []\<rparr> = []
   \<and> process_quote_token RIGHT_DOUBLE_QUOTE 0 0 \<lparr>quote_stack = [], spans = []\<rparr>
       = Some \<lparr>quote_stack = [], spans = []\<rparr>"
  using closing_only_on_empty_stack_is_noop
          [of RIGHT_DOUBLE_QUOTE "\<lparr>quote_stack = [], spans = []\<rparr>" 0 0]
  by (simp add: CLOSING_QUOTES_def OPENING_QUOTES_def quote_char_defs)

section \<open>Quotes still open at the end of the document\<close>

text \<open>
  Claim C4. The pass over the paragraphs ends in a state \<open>st\<close> without raising. With
  \<open>handle_multi_paragraph\<close> set, each entry left on the stack becomes a span of its own,
  appended after the closed spans in stack order: it closes in the last paragraph
  (\<open>len(paragraphs) - 1\<close>), its closing token is the sentinel \<open>-1\<close>, and its nesting level is
  0. With \<open>handle_multi_paragraph\<close> unset the entries are dropped: the result is the closed
  spans alone.
\<close>

theorem unclosed_quotes_at_document_end:
  "\<exists>st. scan_document alpha paragraphs = Some st \<and>
     find_quote_spans alpha cfg paragraphs =
       Some (spans st @
         (if handle_multi_paragraph cfg then
            map (\<lambda>(open_para, open_token, open_char).
                   \<lparr>start_para = open_para, end_para = int (length paragraphs) - 1,
                    start_token = open_token, end_token = - 1,
                    quote_char = open_char, is_nested = False, nesting_level = 0\<rparr>)
                (quote_stack st)
          else []))"
proof -
  from scan_document_total[of alpha paragraphs]
  obtain st where st: "scan_document alpha paragraphs = Some st" by auto
  have "unclosed_span paragraphs = (\<lambda>(open_para, open_token, open_char).
                   \<lparr>start_para = open_para, end_para = int (length paragraphs) - 1,
                    start_token = open_token, end_token = - 1,
                    quote_char = open_char, is_nested = False, nesting_level = 0\<rparr>)"
    by (auto simp: unclosed_span_def fun_eq_iff)
  with st show ?thesis by (auto simp: find_quote_spans_def)
qed

theorem unclosed_quotes_at_document_end_witness:
  "find_quote_spans ascii_alpha default_config doc_unclosed =
     Some [\<lparr>start_para = 0, end_para = 1, start_token = 2, end_token = - 1,
            quote_char = 34, is_nested = False, nesting_level = 0\<rparr>]
   \<and> find_quote_spans ascii_alpha (default_config\<lparr>handle_multi_paragraph := False\<rparr>)
        doc_unclosed = Some []"
  using unclosed_quotes_at_document_end [of ascii_alpha doc_unclosed default_config]
        unclosed_quotes_at_document_end
          [of ascii_alpha doc_unclosed "default_config\<lparr>handle_multi_paragraph := False\<rparr>"]
  by (simp add: doc_unclosed_def eval_defs)

section \<open>A quote that continues into the next paragraph\<close>

text \<open>
  Claim C1, at two documents of two paragraphs. In the first the opening quote is the last
  token of paragraph 0, and two words of speech and the closing quote open paragraph 1; the
  matcher finds the span from token 2 of paragraph 0 to token 2 of paragraph 1. In the second
  one word of speech follows the opening quote in paragraph 0. The projector looks a span up
  under the paragraph it starts in only: what the span covers in paragraph 0 is labelled, and
  in paragraph 1 the words before the closing quote stay \<open>O\<close>. The labels are not carried
  over the paragraph boundary.
\<close>

theorem continued_quote_is_cut_at_the_paragraph_end:
  "find_quote_spans ascii_alpha default_config doc_open_at_end =
     Some [\<lparr>start_para = 0, end_para = 1, start_token = 2, end_token = 2,
            quote_char = 34, is_nested = False, nesting_level = 0\<rparr>]
   \<and> map_option (map predicted_bio_labels)
        (predict_paragraphs ascii_alpha default_config doc_open_at_end) =
     Some [[O_label, O_label, O_label],
           [O_label, O_label, O_label, O_label]]
   \<and> find_quote_spans ascii_alpha default_config doc_continued =
     Some [\<lparr>start_para = 0, end_para = 1, start_token = 2, end_token = 1,
            quote_char = 34, is_nested = False, nesting_level = 0\<rparr>]
   \<and> map_option (map predicted_bio_labels)
        (predict_paragraphs ascii_alpha default_config doc_continued) =
     Some [[O_label, O_label, O_label, B_label (ascii ''DIRECT'')],
           [O_label, O_label, O_label]]"
  by (simp add: doc_open_at_end_def doc_continued_def eval_defs)

section \<open>Locating a quote character in the text\<close>

lemma skip_separator_once:
  "skip_separator txt token_end token_end =
     (if token_end < length txt \<and> txt ! token_end \<in> WHITESPACE then token_end + 1
      else token_end)"
  by (subst skip_separator.simps, subst skip_separator.simps) simp

lemma build_token_offsets_found:
  assumes "py_find_from txt token text_pos = int token_start"
    and "skip_separator txt (token_start + length token) (token_start + length token) = next_pos"
  shows "build_token_offsets_from txt text_pos (token # rest) =
           (token_start, token_start + length token) # build_token_offsets_from txt next_pos rest"
  using assms by (simp add: Let_def)

lemma offsets_example:
  "build_token_offsets (ptext (doc_repeated_quote ! 0)) (tokens (doc_repeated_quote ! 0))
   = [(0, 4), (5, 12), (13, 19)]"
proof -
  let ?txt = "[105, 116, 39, 115, 32, 39, 72, 101, 108, 108, 111, 44, 32, 116, 104, 101, 114,
              101, 39] :: nat list"
  let ?t0 = "[105, 116, 39, 115] :: nat list"
  let ?t1 = "[39, 72, 101, 108, 108, 111, 44] :: nat list"
  let ?t2 = "[116, 104, 101, 114, 101, 39] :: nat list"
  have tx: "ptext (doc_repeated_quote ! 0) = ?txt"
    and toks: "tokens (doc_repeated_quote ! 0) = [?t0, ?t1, ?t2]"
    by (simp_all add: doc_repeated_quote_def mk_paragraph_def ascii_def)
  have f0: "py_find_from ?txt ?t0 0 = int 0"
    by (simp add: py_find_from_def upt_rec)
  have s0: "skip_separator ?txt (0 + length ?t0) (0 + length ?t0) = 5"
    by (simp add: skip_separator_once WHITESPACE_def)
  have f1: "py_find_from ?txt ?t1 5 = int 5"
    by (simp add: py_find_from_def upt_rec)
  have s1: "skip_separator ?txt (5 + length ?t1) (5 + length ?t1) = 13"
    by (simp add: skip_separator_once WHITESPACE_def)
  have f2: "py_find_from ?txt ?t2 13 = int 13"
    by (simp add: py_find_from_def upt_rec)
  have s2: "skip_separator ?txt (13 + length ?t2) (13 + length ?t2) = 19"
    by (simp add: skip_separator_once WHITESPACE_def)
  have "build_token_offsets_from ?txt 0 [?t0, ?t1, ?t2] =
          [(0, 0 + length ?t0), (5, 5 + length ?t1), (13, 13 + length ?t2)]"
    by (simp only: build_token_offsets_found [OF f0 s0] build_token_offsets_found [OF f1 s1]
          build_token_offsets_found [OF f2 s2] build_token_offsets_from.simps(1))
  then show ?thesis
    unfolding tx toks build_token_offsets_def by simp
qed

text \<open>
  Claim C8, at a paragraph whose text is \<open>it's 'Hello, there'\<close>, in three tokens. The
  quote that opens the second token stands at index 5 of the text, where
  \<open>_build_token_offsets\<close> places that token; the matcher looks the character up with
  \<open>text.find\<close> and gets index 2, the apostrophe of the first token. At index 2 the
  context check answers apostrophe, at index 5 it answers quote: the matcher drops the
  opening quote, finds no span and labels nothing. Nothing is raised.
\<close>

theorem repeated_quote_is_located_at_its_first_occurrence:
  "build_token_offsets (ptext (doc_repeated_quote ! 0)) (tokens (doc_repeated_quote ! 0))
     = [(0, 4), (5, 12), (13, 19)]
   \<and> py_find (ptext (doc_repeated_quote ! 0)) 39 = 2
   \<and> ptext (doc_repeated_quote ! 0) ! 5 = 39
   \<and> is_apostrophe ascii_alpha 39 2 (ptext (doc_repeated_quote ! 0)) 1
        (tokens (doc_repeated_quote ! 0))
   \<and> \<not> is_apostrophe ascii_alpha 39 5 (ptext (doc_repeated_quote ! 0)) 1
        (tokens (doc_repeated_quote ! 0))
   \<and> find_quote_spans ascii_alpha default_config doc_repeated_quote = Some []
   \<and> map_option (map predicted_bio_labels)
        (predict_paragraphs ascii_alpha default_config doc_repeated_quote) =
     Some [[O_label, O_label, O_label]]"
proof -
  have "py_find (ptext (doc_repeated_quote ! 0)) 39 = 2
   \<and> ptext (doc_repeated_quote ! 0) ! 5 = 39
   \<and> is_apostrophe ascii_alpha 39 2 (ptext (doc_repeated_quote ! 0)) 1
        (tokens (doc_repeated_quote ! 0))
   \<and> \<not> is_apostrophe ascii_alpha 39 5 (ptext (doc_repeated_quote ! 0)) 1
        (tokens (doc_repeated_quote ! 0))
   \<and> find_quote_spans ascii_alpha default_config doc_repeated_quote = Some []
   \<and> map_option (map predicted_bio_labels)
        (predict_paragraphs ascii_alpha default_config doc_repeated_quote) =
     Some [[O_label, O_label, O_label]]"
    by (simp add: doc_repeated_quote_def eval_defs)
  with offsets_example show ?thesis by blast
qed

section \<open>The apostrophe rules\<close>

text \<open>
  The rules of claim C7 as stated fail at two tokens. At the two-character token \<open>'s\<close>
  no rule on the token applies as the claim words them (the token is not longer than 2
  characters and the quote is not strictly inside it) and the context of the text answers no,
  yet the classifier answers apostrophe. At the token \<open>'a1'\<close> the first rule does not
  apply, the remainder being not alphabetic, and the second one does (the token ends with the
  quote and is longer than 2 characters), yet the classifier answers quote: it has gone to
  the context of the text.
\<close>

theorem apostrophe_rules_counterexample:
  "is_apostrophe ascii_alpha 39 0 [39, 115] 0 [[39, 115]]
   \<and> \<not> 2 < length [39, 115::nat]
   \<and> 39 \<notin> set (butlast (tl [39, 115::nat]))
   \<and> \<not> text_context ascii_alpha 0 [39, 115]
   \<and> \<not> is_apostrophe ascii_alpha 39 0 [39, 97, 49, 39] 0 [[39, 97, 49, 39]]
   \<and> startswith_char [39, 97, 49, 39] 39
   \<and> \<not> str_isalpha ascii_alpha (tl [39, 97, 49, 39])
   \<and> \<not> str_isalpha ascii_alpha (removeAll 45 (tl [39, 97, 49, 39]))
   \<and> endswith_char [39, 97, 49, 39] 39 \<and> 2 < length [39, 97, 49, 39::nat]"
  by (simp add: eval_defs)

text \<open>
  Claim C7, amended. For a single-quote character that occurs in a token of more than one
  character, with \<open>s\<close> a letter: when the token starts with the character and is longer
  than 2 characters, the character is a quote if the remainder of the token is alphabetic, or
  alphabetic once its hyphens are removed, and otherwise the context of the text decides
  (apostrophe exactly when the position has a character on both sides in the text, the one
  before a letter and the one after a letter or \<open>s\<close>), the later rules not being tried; in
  every other case (the token ends with the character, the character is inside the token,
  or the token has two characters) it is an apostrophe.
\<close>

theorem apostrophe_rules_in_order:
  assumes "ch \<in> SINGLE_QUOTES"
    and "0 \<le> token_idx" and "token_idx < int (length toks)"
    and "1 < length (toks ! nat token_idx)" and "ch \<in> set (toks ! nat token_idx)"
    and "alpha 115"
  shows "is_apostrophe alpha ch char_idx txt token_idx toks =
     (let token = toks ! nat token_idx in
      if startswith_char token ch \<and> 2 < length token then
        (if str_isalpha alpha (tl token) \<or> str_isalpha alpha (removeAll 45 (tl token))
         then False
         else (0 < char_idx \<and> char_idx < int (length txt) - 1
               \<and> alpha (txt ! nat (char_idx - 1))
               \<and> (alpha (txt ! nat (char_idx + 1)) \<or> txt ! nat (char_idx + 1) = 115)))
      else True)"
  using assms by (auto simp: is_apostrophe_def text_context_def Let_def)

theorem apostrophe_rules_in_order_witness:
  "39 \<in> SINGLE_QUOTES \<and> (0::int) \<le> 0 \<and> (0::int) < int (length [[39, 97, 49, 39::nat]])
   \<and> 1 < length ([[39, 97, 49, 39::nat]] ! nat 0) \<and> 39 \<in> set ([[39, 97, 49, 39::nat]] ! nat 0)
   \<and> ascii_alpha 115
   \<and> is_apostrophe ascii_alpha 39 1 [97, 39, 115] 0 [[39, 97, 49, 39]]"
  using apostrophe_rules_in_order [of 39 0 "[[39, 97, 49, 39]]" ascii_alpha 1 "[97, 39, 115]"]
  by (simp add: SINGLE_QUOTES_def quote_char_defs ascii_alpha_def startswith_char_def
        str_isalpha_def)

section \<open>The fast path\<close>

lemma fold_opt_cong:
  assumes "\<And>x s. x \<in> set xs \<Longrightarrow> f x s = g x s"
  shows "fold_opt f xs s = fold_opt g xs s"
  using assms by (induction xs arbitrary: s) (auto split: option.splits)

lemma fold_opt_id:
  assumes "\<And>x s. x \<in> set xs \<Longrightarrow> f x s = Some s"
  shows "fold_opt f xs s = Some s"
  using assms by (induction xs arbitrary: s) auto

lemma QUOTE_PATTERN_covers_ALL_QUOTES: "ALL_QUOTES \<subseteq> QUOTE_CHARS"
  by (simp add: ALL_QUOTES_def OPENING_QUOTES_def CLOSING_QUOTES_def QUOTE_CHARS_def
        quote_char_defs)

lemma scan_token_no_quote:
  assumes "\<forall>c \<in> set (snd it). c \<notin> ALL_QUOTES"
  shows "scan_token alpha para_idx txt toks it st = Some st"
proof -
  let ?token = "snd it"
  have a: "\<not> in_ALL_QUOTES ?token"
    using assms by (auto simp: in_ALL_QUOTES_def split: list.splits)
  have b: "1 < length ?token \<Longrightarrow> hd ?token \<notin> ALL_QUOTES \<and> last ?token \<notin> ALL_QUOTES"
  proof -
    assume "1 < length ?token"
    then have "?token \<noteq> []" by auto
    then have "hd ?token \<in> set ?token" "last ?token \<in> set ?token" by simp_all
    with assms show ?thesis by blast
  qed
  show ?thesis using a b by (auto simp: scan_token_def Let_def)
qed

lemma in_set_enumerate_snd: "x \<in> set (enumerate n xs) \<Longrightarrow> snd x \<in> set xs"
  by (metis in_set_zipE enumerate_eq_zip prod.collapse)

lemma tokens_within_text_no_quote:
  assumes "tokens_within_text p" and "\<not> QUOTE_PATTERN_search (ptext p)"
    and "token \<in> set (tokens p)"
  shows "\<forall>c \<in> set token. c \<notin> ALL_QUOTES"
proof
  fix c assume "c \<in> set token"
  with assms(1,3) have "c \<in> set (ptext p)" by (auto simp: tokens_within_text_def)
  with assms(2) have "c \<notin> QUOTE_CHARS" by (auto simp: QUOTE_PATTERN_search_def)
  with QUOTE_PATTERN_covers_ALL_QUOTES show "c \<notin> ALL_QUOTES" by blast
qed

text \<open>
  Claim C6. A paragraph whose text holds no character of \<open>QUOTE_PATTERN\<close> is skipped with
  the state unchanged: the stack is the same and no span is appended. For every document of
  paragraphs whose tokens come from their text, the matcher with the fast path finds the same
  spans as the pass over every token of every paragraph, and the engine returns the same
  predictions: the pattern holds every character of \<open>ALL_QUOTES\<close>, so a skipped paragraph
  has no quote character in any token.
\<close>

theorem fast_path_changes_nothing:
  assumes "\<forall>p \<in> set paragraphs. tokens_within_text p"
  shows "(\<forall>ip st. \<not> QUOTE_PATTERN_search (ptext (snd ip)) \<longrightarrow>
             scan_paragraph alpha ip st = Some st)
     \<and> find_quote_spans alpha cfg paragraphs = find_quote_spans_every_token alpha cfg paragraphs
     \<and> predict_paragraphs alpha cfg paragraphs
       = predict_paragraphs_every_token alpha cfg paragraphs"
proof -
  have skip: "\<forall>ip st. \<not> QUOTE_PATTERN_search (ptext (snd ip)) \<longrightarrow>
             scan_paragraph alpha ip st = Some st"
    by (simp add: scan_paragraph_def)
  have same: "scan_paragraph alpha ip st = scan_paragraph_every_token alpha ip st"
    if "ip \<in> set (enumerate 0 paragraphs)" for ip st
  proof (cases "QUOTE_PATTERN_search (ptext (snd ip))")
    case True
    then show ?thesis by (simp add: scan_paragraph_def scan_paragraph_every_token_def)
  next
    case False
    from that have "snd ip \<in> set paragraphs" by (rule in_set_enumerate_snd)
    with assms have within: "tokens_within_text (snd ip)" by blast
    have "fold_opt (scan_token alpha (int (fst ip)) (ptext (snd ip)) (tokens (snd ip)))
            (enumerate 0 (tokens (snd ip))) st = Some st"
    proof (rule fold_opt_id)
      fix x s assume "x \<in> set (enumerate 0 (tokens (snd ip)))"
      then have "snd x \<in> set (tokens (snd ip))" by (rule in_set_enumerate_snd)
      with within False have "\<forall>c \<in> set (snd x). c \<notin> ALL_QUOTES"
        by (rule tokens_within_text_no_quote)
      then show "scan_token alpha (int (fst ip)) (ptext (snd ip)) (tokens (snd ip)) x s = Some s"
        by (rule scan_token_no_quote)
    qed
    with False show ?thesis
      by (simp add: scan_paragraph_def scan_paragraph_every_token_def)
  qed
  have "fold_opt (scan_paragraph alpha) (enumerate 0 paragraphs) s0
        = fold_opt (scan_paragraph_every_token alpha) (enumerate 0 paragraphs) s0" for s0
    by (rule fold_opt_cong) (rule same)
  then have eq: "find_quote_spans alpha cfg paragraphs
                 = find_quote_spans_every_token alpha cfg paragraphs"
    by (simp add: find_quote_spans_def find_quote_spans_every_token_def scan_document_def)
  then have "predict_paragraphs alpha cfg paragraphs
               = predict_paragraphs_every_token alpha cfg paragraphs"
    by (simp add: predict_paragraphs_def predict_paragraphs_every_token_def)
  with skip eq show ?thesis by simp
qed

theorem fast_path_changes_nothing_witness:
  "\<not> QUOTE_PATTERN_search (ptext (doc_unclosed ! 1))
   \<and> scan_paragraph ascii_alpha (1, doc_unclosed ! 1)
        \<lparr>quote_stack = [(0, 2, 34)], spans = []\<rparr>
       = Some \<lparr>quote_stack = [(0, 2, 34)], spans = []\<rparr>
   \<and> find_quote_spans_every_token ascii_alpha default_config doc_unclosed =
       Some [\<lparr>start_para = 0, end_para = 1, start_token = 2, end_token = - 1,
              quote_char = 34, is_nested = False, nesting_level = 0\<rparr>]
   \<and> map_option (map predicted_bio_labels)
        (predict_paragraphs_every_token ascii_alpha default_config doc_unclosed) =
       Some [[O_label, O_label, O_label, B_label (ascii ''DIRECT'')], [O_label, O_label]]"
proof -
  have within: "\<forall>p \<in> set doc_unclosed. tokens_within_text p"
    by (simp add: doc_unclosed_def mk_paragraph_def ascii_def tokens_within_text_def)
  note inst = fast_path_changes_nothing [OF within, of ascii_alpha default_config]
  from inst have spans_eq: "find_quote_spans_every_token ascii_alpha default_config doc_unclosed
      = find_quote_spans ascii_alpha default_config doc_unclosed"
    and preds_eq: "predict_paragraphs_every_token ascii_alpha default_config doc_unclosed
      = predict_paragraphs ascii_alpha default_config doc_unclosed"
    by simp_all
  show ?thesis
    unfolding spans_eq preds_eq by (simp add: doc_unclosed_def eval_defs)
qed

section \<open>One labelled paragraph per paragraph\<close>

text \<open>
  Claim C3. For every list of paragraphs and every configuration the engine returns, without
  raising, one prediction per paragraph, in the order of the input (the prediction at index
  \<open>i\<close> carries the tokens and the text of paragraph \<open>i\<close>), and in each prediction the label
  list is as long as the token list.
\<close>

theorem one_labelled_paragraph_per_paragraph:
  "\<exists>preds. predict_paragraphs alpha cfg data = Some preds
     \<and> length preds = length data
     \<and> (\<forall>i < length data.
           pred_tokens (preds ! i) = tokens (data ! i)
           \<and> pred_text (preds ! i) = ptext (data ! i)
           \<and> length (predicted_bio_labels (preds ! i)) = length (pred_tokens (preds ! i)))"
proof -
  from predict_paragraphs_result[of alpha cfg data]
  obtain Ls where Ls: "length Ls = length data"
    "\<forall>i < length data. bio_ok (speech_label cfg) (tokens (data ! i)) (Ls ! i)"
    "predict_paragraphs alpha cfg data = Some (map make_prediction (zip data Ls))" by blast
  let ?preds = "map make_prediction (zip data Ls)"
  have "length ?preds = length data" using Ls(1) by simp
  moreover have "pred_tokens (?preds ! i) = tokens (data ! i)
           \<and> pred_text (?preds ! i) = ptext (data ! i)
           \<and> length (predicted_bio_labels (?preds ! i)) = length (pred_tokens (?preds ! i))"
    if "i < length data" for i
    using that Ls(1,2) by (simp add: make_prediction_def bio_ok_def)
  ultimately show ?thesis using Ls(3) by blast
qed

theorem one_labelled_paragraph_per_paragraph_witness:
  "map (\<lambda>pr. (pred_tokens pr, predicted_bio_labels pr))
     (the (predict_paragraphs ascii_alpha default_config doc_continued)) =
   [([ascii ''He'', ascii ''said'', [34], ascii ''Hello''],
     [O_label, O_label, O_label, B_label (ascii ''DIRECT'')]),
    ([ascii ''world'', [34], ascii ''today''], [O_label, O_label, O_label])]"
  using one_labelled_paragraph_per_paragraph [of ascii_alpha default_config doc_continued]
  by (simp add: doc_continued_def eval_defs)

section \<open>Well-formed label sequences\<close>

text \<open>
  Claim C5 fails as stated on nested quotes: in the paragraph of tokens
  \<open>[LDQ, a, LSQ, b, RSQ, c, RDQ]\<close> (curly quotes) the outer span, applied last, labels
  \<open>a\<close> with \<open>B-\<close> and \<open>b\<close>, \<open>c\<close> with \<open>I-\<close>, and the quote tokens in between keep \<open>O\<close>:
  the \<open>I-\<close> label of \<open>b\<close> at index 3 comes right after the \<open>O\<close> of the quote at index 2.
\<close>

theorem i_label_after_quote_token_counterexample:
  "map_option (map predicted_bio_labels)
     (predict_paragraphs ascii_alpha default_config doc_nested) =
   Some [[O_label, B_label (ascii ''DIRECT''), O_label, I_label (ascii ''DIRECT''), O_label,
          I_label (ascii ''DIRECT''), O_label]]
   \<and> O_label \<noteq> B_label (ascii ''DIRECT'') \<and> O_label \<noteq> I_label (ascii ''DIRECT'')"
  by (simp add: doc_nested_def eval_defs)

text \<open>
  Claim C5, amended. In every output label sequence an \<open>I-\<close> label is preceded, in the same
  paragraph, by a token that is not a quote token and carries \<open>B-\<close> or \<open>I-\<close> of the same
  type, and every token between the two is a quote token, labelled \<open>O\<close>: the \<open>I-\<close> label
  follows a \<open>B-\<close> or \<open>I-\<close> label immediately once the quote tokens are set aside.
\<close>

theorem i_label_follows_speech_up_to_quote_tokens:
  assumes "predict_paragraphs alpha cfg data = Some preds"
    and "pr \<in> set preds"
    and "k < length (predicted_bio_labels pr)"
    and "predicted_bio_labels pr ! k = I_label (speech_label cfg)"
  shows "\<exists>j < k. \<not> in_ALL_QUOTES (pred_tokens pr ! j)
           \<and> (predicted_bio_labels pr ! j = B_label (speech_label cfg)
                \<or> predicted_bio_labels pr ! j = I_label (speech_label cfg))
           \<and> (\<forall>m. j < m \<and> m < k \<longrightarrow>
                 in_ALL_QUOTES (pred_tokens pr ! m) \<and> predicted_bio_labels pr ! m = O_label)"
proof -
  from predict_paragraphs_result[of alpha cfg data] assms(1)
  obtain Ls where Ls: "length Ls = length data"
    "\<forall>i < length data. bio_ok (speech_label cfg) (tokens (data ! i)) (Ls ! i)"
    "preds = map make_prediction (zip data Ls)" by auto
  from assms(2) Ls(3) obtain i where i: "i < length data" "pr = make_prediction (data ! i, Ls ! i)"
    using Ls(1) by (auto simp: in_set_conv_nth)
  let ?L = "Ls ! i" and ?T = "tokens (data ! i)"
  from i(2) have pr: "predicted_bio_labels pr = ?L" "pred_tokens pr = ?T"
    by (simp_all add: make_prediction_def)
  from Ls(2) i(1) have ok: "bio_ok (speech_label cfg) ?T ?L" by blast
  from assms(3,4) pr have k: "k < length ?L" "?L ! k = I_label (speech_label cfg)" by simp_all
  with ok obtain j where j: "j < k" "\<not> in_ALL_QUOTES (?T ! j)"
    "?L ! j = B_label (speech_label cfg) \<or> ?L ! j = I_label (speech_label cfg)"
    "\<forall>m. j < m \<and> m < k \<longrightarrow> in_ALL_QUOTES (?T ! m)"
    unfolding bio_ok_def by blast
  have "in_ALL_QUOTES (?T ! m) \<and> ?L ! m = O_label" if "j < m \<and> m < k" for m
  proof -
    from that j(4) have q: "in_ALL_QUOTES (?T ! m)" by blast
    from that k(1) have "m < length ?L" by simp
    with ok q show ?thesis unfolding bio_ok_def by blast
  qed
  with j pr show ?thesis by auto
qed

theorem i_label_follows_speech_up_to_quote_tokens_witness:
  "predicted_bio_labels (the (predict_paragraphs ascii_alpha default_config doc_nested) ! 0) ! 3
     = I_label (speech_label default_config)
   \<and> \<not> in_ALL_QUOTES
         (pred_tokens (the (predict_paragraphs ascii_alpha default_config doc_nested) ! 0) ! 1)
   \<and> predicted_bio_labels (the (predict_paragraphs ascii_alpha default_config doc_nested) ! 0) ! 1
     = B_label (speech_label default_config)
   \<and> in_ALL_QUOTES
         (pred_tokens (the (predict_paragraphs ascii_alpha default_config doc_nested) ! 0) ! 2)
   \<and> predicted_bio_labels (the (predict_paragraphs ascii_alpha default_config doc_nested) ! 0) ! 2
     = O_label"
  using i_label_follows_speech_up_to_quote_tokens
          [of ascii_alpha default_config doc_nested
              "the (predict_paragraphs ascii_alpha default_config doc_nested)"
              "the (predict_paragraphs ascii_alpha default_config doc_nested) ! 0" 3]
  by (simp add: doc_nested_def eval_defs)

section \<open>Nested spans\<close>


end
